theory Spec2Isabelle
  imports Main "HOL-Library.AList"
begin

section \<open>Data model (src/types.ts)\<close>

text \<open>
  The types of \<^verbatim>\<open>src/types.ts\<close>. An optional field \<^verbatim>\<open>f?: T\<close> is a field of type
  \<open>T option\<close>, with \<open>None\<close> for \<^verbatim>\<open>undefined\<close>. Field names that clash between two
  interfaces, or with a constant of HOL, carry a prefix.
\<close>

datatype PermissionMode = default_mode | acceptEdits | bypassPermissions | dontAsk

datatype Item =
    TextItem string
  | ThinkingItem string
  | ToolCallItem string string string
  | ToolResultItem string string "bool option"

text \<open>The discriminant \<^verbatim>\<open>item.type\<close> of the tagged union.\<close>

fun item_type :: "Item \<Rightarrow> string" where
  "item_type (TextItem t) = ''text''"
| "item_type (ThinkingItem t) = ''thinking''"
| "item_type (ToolCallItem u n i) = ''tool_call''"
| "item_type (ToolResultItem u c e) = ''tool_result''"

record StoredItem =
  si_id :: string
  si_created_at :: nat
  si_item :: Item

datatype MessageRole = user | assistant

record ChatMessage =
  msg_id :: string
  role :: MessageRole
  content :: string
  items :: "StoredItem list option"
  streamingText :: "string option"
  isStreaming :: "bool option"

datatype TurnStatus = active | completed | interrupted | turn_error

record Turn =
  turn_id :: string
  turn_thread_id :: string
  turn_status :: TurnStatus
  user_content :: string
  turn_messages :: "ChatMessage list"

record PermissionDenial =
  tool_name :: string
  tool_use_id :: string
  tool_input :: "string option"

record Session =
  thread_id :: string
  created_at :: nat
  cwd :: string
  permission_mode :: PermissionMode
  turns :: "Turn list"
  active_turn_id :: "string option"
  messages :: "ChatMessage list"
  lastBlockedContent :: "string option"
  hasPermissionDenial :: "bool option"
  permissionDenials :: "PermissionDenial list option"

datatype ConnectionStatus = disconnected | connecting | connected | error

section \<open>Notification router (handleNotification)\<close>

text \<open>
  The payload of \<^verbatim>\<open>item/progress\<close>: \<^verbatim>\<open>delta: { type: string; text?: string }\<close>.
\<close>

record delta =
  delta_type :: string
  delta_text :: "string option"

text \<open>
  A server notification: the method name together with the parameters at the type the
  handler casts them to. \<open>OtherMethod\<close> is any method name the handler has no branch for.
\<close>

datatype notification =
    Initialized
  | TurnStarted string string
  | ItemProgress string delta
  | ItemCreated string StoredItem
  | TurnPermissionDenied string "PermissionDenial list"
  | TurnCompleted string string
  | TurnError string string
  | OtherMethod string

text \<open>\<^verbatim>\<open>updateSession\<close>: the updater runs on every session with the given thread id.\<close>

definition updateSession ::
  "string \<Rightarrow> (Session \<Rightarrow> Session) \<Rightarrow> Session list \<Rightarrow> Session list" where
  "updateSession tid updater prev = map (\<lambda>s. if thread_id s = tid then updater s else s) prev"

text \<open>\<^verbatim>\<open>Array.prototype.findIndex\<close>, with \<open>None\<close> for the result -1.\<close>

fun findIndex :: "('a \<Rightarrow> bool) \<Rightarrow> 'a list \<Rightarrow> nat option" where
  "findIndex P [] = None"
| "findIndex P (x # xs) = (if P x then Some 0 else map_option Suc (findIndex P xs))"

text \<open>\<^verbatim>\<open>x ?? d\<close> on an optional value.\<close>

fun nullish :: "'a option \<Rightarrow> 'a \<Rightarrow> 'a" where
  "nullish None d = d"
| "nullish (Some x) d = x"

text \<open>
  The message list of the session in the \<^verbatim>\<open>item/progress\<close> branch (lines 89 to 95):
  the delta text is added to the last message when that is a streaming assistant message,
  and a new streaming message is pushed otherwise.
\<close>

definition appendDelta :: "string \<Rightarrow> string \<Rightarrow> ChatMessage list \<Rightarrow> ChatMessage list" where
  "appendDelta tid txt msgs =
     (if msgs \<noteq> [] \<and> role (last msgs) = assistant \<and> isStreaming (last msgs) = Some True
      then msgs[length msgs - 1 :=
             (last msgs)\<lparr>streamingText := Some (nullish (streamingText (last msgs)) [] @ txt)\<rparr>]
      else msgs @ [\<lparr>msg_id = ''streaming-'' @ tid, role = assistant, content = [],
                    items = Some [], streamingText = Some txt, isStreaming = Some True\<rparr>])"

text \<open>
  The message list of the session in the \<^verbatim>\<open>item/created\<close> branch (lines 108 to 116).
  The filter drops the streaming messages when the created item is a text item; the
  per-turn assistant message is looked up by role and id, and its position by id alone.
\<close>

definition appendItem :: "string \<Rightarrow> StoredItem \<Rightarrow> ChatMessage list \<Rightarrow> ChatMessage list" where
  "appendItem tid it msgs =
     (let filteredMsgs =
            filter (\<lambda>m. \<not> (isStreaming m = Some True \<and> item_type (si_item it) = ''text'')) msgs
      in case find (\<lambda>m. role m = assistant \<and> msg_id m = ''turn-'' @ tid) filteredMsgs of
           None \<Rightarrow>
             filteredMsgs @ [\<lparr>msg_id = ''turn-'' @ tid, role = assistant, content = [],
                              items = Some [it], streamingText = None,
                              isStreaming = Some False\<rparr>]
         | Some assistantMsg \<Rightarrow>
             (case findIndex (\<lambda>m. msg_id m = ''turn-'' @ tid) filteredMsgs of
                None \<Rightarrow> filteredMsgs
              | Some idx \<Rightarrow>
                  filteredMsgs[idx := assistantMsg\<lparr>items :=
                                        Some (nullish (items assistantMsg) [] @ [it])\<rparr>]))"

text \<open>
  The updater of the \<^verbatim>\<open>turn/permission_denied\<close> branch: the blocked content falls back
  to the content of the last user message.
\<close>

definition recordDenial :: "PermissionDenial list \<Rightarrow> Session \<Rightarrow> Session" where
  "recordDenial denials s =
     s\<lparr>lastBlockedContent :=
         (case lastBlockedContent s of
            Some c \<Rightarrow> Some c
          | None \<Rightarrow>
              (case filter (\<lambda>m. role m = user) (messages s) of
                 [] \<Rightarrow> None
               | m # ms \<Rightarrow> Some (content (last (m # ms))))),
       hasPermissionDenial := Some True,
       permissionDenials := Some denials\<rparr>"

text \<open>The updater of the \<^verbatim>\<open>turn/completed\<close> and \<^verbatim>\<open>turn/error\<close> branch.\<close>

definition finishTurn :: "Session \<Rightarrow> Session" where
  "finishTurn s =
     s\<lparr>active_turn_id := None,
       messages :=
         map (\<lambda>m. if isStreaming m = Some True
                   then m\<lparr>items := Some (nullish (items m) []), isStreaming := Some False\<rparr>
                   else m)
             (messages s)\<rparr>"

text \<open>
  \<^verbatim>\<open>handleNotification\<close>. The first argument is \<^verbatim>\<open>sessionRef.current\<close>, the session list
  of the last render, in which the \<^verbatim>\<open>item/*\<close> branches look the session up; the last is
  the state \<^verbatim>\<open>prev\<close> that the functional \<^verbatim>\<open>setSessions\<close> update receives. The result is
  the new session list.
\<close>

fun handleNotification :: "Session list \<Rightarrow> notification \<Rightarrow> Session list \<Rightarrow> Session list" where
  "handleNotification cur Initialized prev = prev"
| "handleNotification cur (TurnStarted tid thread) prev =
     updateSession thread (\<lambda>s. s\<lparr>active_turn_id := Some tid\<rparr>) prev"
| "handleNotification cur (ItemProgress tid d) prev =
     (case find (\<lambda>s. active_turn_id s = Some tid) cur of
        None \<Rightarrow> prev
      | Some session \<Rightarrow>
          (case delta_text d of
             None \<Rightarrow> prev
           | Some txt \<Rightarrow>
               (if delta_type d = ''text'' \<and> txt \<noteq> []
                then map (\<lambda>s. if thread_id s \<noteq> thread_id session then s
                               else s\<lparr>messages := appendDelta tid txt (messages s)\<rparr>)
                         prev
                else prev)))"
| "handleNotification cur (ItemCreated tid it) prev =
     (case find (\<lambda>s. active_turn_id s = Some tid) cur of
        None \<Rightarrow> prev
      | Some session \<Rightarrow>
          map (\<lambda>s. if thread_id s \<noteq> thread_id session then s
                    else s\<lparr>messages := appendItem tid it (messages s)\<rparr>)
              prev)"
| "handleNotification cur (TurnPermissionDenied thread denials) prev =
     updateSession thread (recordDenial denials) prev"
| "handleNotification cur (TurnCompleted tid thread) prev = updateSession thread finishTurn prev"
| "handleNotification cur (TurnError tid thread) prev = updateSession thread finishTurn prev"
| "handleNotification cur (OtherMethod m) prev = prev"

section \<open>Call dispatcher and connection manager (useWebSocketServer)\<close>

subsection \<open>State\<close>

datatype ReadyState = CONNECTING | OPEN | CLOSING | CLOSED

record WebSocket =
  ws_url :: string
  readyState :: ReadyState

text \<open>
  The values a call is rejected with: the three \<^verbatim>\<open>Error\<close> objects the hook builds, with
  the data their message is formatted from, and the error payload of a server response.
\<close>

datatype failure =
    SocketNotOpen string
  | RequestTimedOut string int
  | WebSocketClosed nat
  | ServerError string

text \<open>
  The result payload of a response, as far as the hook reads it. Only \<^verbatim>\<open>createSession\<close>
  reads the result of its call: \<^verbatim>\<open>result.thread_id\<close> and \<^verbatim>\<open>result.created_at\<close>, which the
  call declares to be a string and a number; \<open>ThreadStartResult\<close> carries the two.
  \<open>NullResult\<close> is the JSON value \<^verbatim>\<open>null\<close>: reading a property of it throws, so that an
  async function that reads its result stops there. A result object without the two
  properties is excluded by the declared type and has no value in this type.
\<close>

datatype payload = ThreadStartResult string nat | NullResult

datatype outcome = Resolved payload | Rejected failure

text \<open>
  The code that awaits the promise of a \<^verbatim>\<open>call\<close>: one constructor for each function of
  the hook that awaits one, with the variables its continuation has captured.
\<close>

datatype caller =
    AwaitCreateSession string PermissionMode
  | AwaitSendMessage
  | AwaitInterruptTurn
  | AwaitApprovePermission string "PermissionMode option"
  | AwaitChangePermissionMode string PermissionMode
  | AwaitDeleteSession string

text \<open>
  The \<^verbatim>\<open>resolve\<close> and \<^verbatim>\<open>reject\<close> closures of a pending record: those of \<^verbatim>\<open>call\<close>, which
  settle the promise of the call, or those that \<^verbatim>\<open>ws.onopen\<close> registers for the handshake.
\<close>

datatype completion = Handshake | CallPromise caller

record pending_call =
  method_name :: string
  completion :: completion
  startedAt :: nat

datatype timer_callback = CallTimeout string nat caller | InitTimeout

record timer =
  callback :: timer_callback
  duration :: nat

datatype last_error =
    InitializeTimedOut
  | InitializeRejected failure
  | ConnectionFailed
  | ClosedWithCode nat
  | CloseReason string

definition CALL_TIMEOUT_MS :: nat where
  "CALL_TIMEOUT_MS = 30000"

definition INIT_TIMEOUT_MS :: nat where
  "INIT_TIMEOUT_MS = 10000"

text \<open>
  The state of the hook and of its module. \<open>pendingRef\<close> is the \<^verbatim>\<open>Map\<close> of pending
  records in insertion order. \<open>sockets\<close> holds the \<^verbatim>\<open>WebSocket\<close> objects created so far,
  and \<open>wsRef\<close> refers to one by its position. \<open>timers\<close> holds the armed timeouts, each
  under the correlation id its callback has captured. The last three fields are traces of
  what the code has done: the values \<^verbatim>\<open>nextId\<close> has returned, the promises of \<^verbatim>\<open>call\<close>
  that were resolved or rejected, and the requests handed to \<^verbatim>\<open>ws.send\<close>.

  \<open>msgIdCounter\<close> is a natural number: the counter starts at 1 and grows by one, and a
  JavaScript number holds every integer below \<open>2 ^ 53\<close> exactly.
\<close>

record state =
  msgIdCounter :: nat
  url :: string
  status :: ConnectionStatus
  lastError :: "last_error option"
  sessions :: "Session list"
  wsRef :: "nat option"
  pendingRef :: "(nat \<times> pending_call) list"
  sessionRef :: "Session list"
  sockets :: "WebSocket list"
  timers :: "(nat \<times> timer) list"
  allocated :: "nat list"
  settled :: "(nat \<times> outcome) list"
  sent :: "(nat \<times> nat \<times> string) list"

definition initial :: state where
  "initial =
     \<lparr>msgIdCounter = 1, url = ''ws://localhost:3284'', status = disconnected,
      lastError = None, sessions = [], wsRef = None, pendingRef = [], sessionRef = [],
      sockets = [], timers = [], allocated = [], settled = [], sent = []\<rparr>"

subsection \<open>Correlation ids, sending, settling\<close>

definition nextId :: "state \<Rightarrow> nat \<times> state" where
  "nextId st =
     (msgIdCounter st,
      st\<lparr>msgIdCounter := msgIdCounter st + 1, allocated := allocated st @ [msgIdCounter st]\<rparr>)"

text \<open>The socket \<^verbatim>\<open>wsRef.current\<close> refers to, with its position.\<close>

definition current :: "state \<Rightarrow> (nat \<times> WebSocket) option" where
  "current st =
     (case wsRef st of
        None \<Rightarrow> None
      | Some h \<Rightarrow> if h < length (sockets st) then Some (h, sockets st ! h) else None)"

text \<open>
  The test of \<^verbatim>\<open>rawSend\<close>: there is a current socket and its \<^verbatim>\<open>readyState\<close> is
  \<^verbatim>\<open>OPEN\<close>.
\<close>

definition transportOpen :: "state \<Rightarrow> bool" where
  "transportOpen st =
     (case current st of None \<Rightarrow> False | Some (h, ws) \<Rightarrow> readyState ws = OPEN)"

definition rawSend :: "nat \<Rightarrow> string \<Rightarrow> state \<Rightarrow> bool \<times> state" where
  "rawSend i m st =
     (case current st of
        None \<Rightarrow> (False, st)
      | Some (h, ws) \<Rightarrow>
          if readyState ws \<noteq> OPEN then (False, st)
          else (True, st\<lparr>sent := sent st @ [(h, i, m)]\<rparr>))"

definition clearTimeout :: "nat \<Rightarrow> state \<Rightarrow> state" where
  "clearTimeout i st = st\<lparr>timers := AList.delete i (timers st)\<rparr>"

text \<open>
  What runs after the \<^verbatim>\<open>await\<close> of a call, for each awaiting function. The functions
  that wrap the call in \<^verbatim>\<open>try { } catch {}\<close> go on in the same way after a rejection.
  \<^verbatim>\<open>createSession\<close> appends the session built from \<^verbatim>\<open>result.thread_id\<close> and
  \<^verbatim>\<open>result.created_at\<close>; on the result \<^verbatim>\<open>null\<close> reading \<^verbatim>\<open>result.thread_id\<close> throws
  before \<^verbatim>\<open>setSessions\<close>, and after a rejection the \<^verbatim>\<open>await\<close> throws, so that the store
  is left as it is in both cases.
\<close>

fun resume :: "caller \<Rightarrow> outcome \<Rightarrow> state \<Rightarrow> state" where
  "resume (AwaitCreateSession dir mode) (Resolved (ThreadStartResult t c)) st =
     st\<lparr>sessions := sessions st @
          [\<lparr>thread_id = t, created_at = c, cwd = dir, permission_mode = mode, turns = [],
            active_turn_id = None, messages = [], lastBlockedContent = None,
            hasPermissionDenial = None, permissionDenials = None\<rparr>]\<rparr>"
| "resume (AwaitCreateSession dir mode) (Resolved NullResult) st = st"
| "resume (AwaitCreateSession dir mode) (Rejected e) st = st"
| "resume AwaitSendMessage _ st = st"
| "resume AwaitInterruptTurn _ st = st"
| "resume (AwaitApprovePermission t m) _ st =
     st\<lparr>sessions :=
          updateSession t
            (\<lambda>s. s\<lparr>permission_mode := nullish m acceptEdits,
                    hasPermissionDenial := Some False,
                    permissionDenials := None\<rparr>)
            (sessions st)\<rparr>"
| "resume (AwaitChangePermissionMode t m) _ st =
     st\<lparr>sessions := updateSession t (\<lambda>s. s\<lparr>permission_mode := m\<rparr>) (sessions st)\<rparr>"
| "resume (AwaitDeleteSession t) _ st =
     st\<lparr>sessions := filter (\<lambda>s. thread_id s \<noteq> t) (sessions st)\<rparr>"

text \<open>Resolving or rejecting the promise of call \<open>i\<close>: the awaiting code goes on.\<close>

definition settlePromise :: "nat \<Rightarrow> caller \<Rightarrow> outcome \<Rightarrow> state \<Rightarrow> state" where
  "settlePromise i k out st = resume k out (st\<lparr>settled := settled st @ [(i, out)]\<rparr>)"

text \<open>The \<^verbatim>\<open>resolve\<close> and \<^verbatim>\<open>reject\<close> closures stored in the pending record of id \<open>i\<close>.\<close>

definition entryResolve :: "nat \<Rightarrow> pending_call \<Rightarrow> payload \<Rightarrow> state \<Rightarrow> state" where
  "entryResolve i p v st =
     (case completion p of
        CallPromise k \<Rightarrow> settlePromise i k (Resolved v) (clearTimeout i st)
      | Handshake \<Rightarrow> (clearTimeout i st)\<lparr>status := connected\<rparr>)"

definition entryReject :: "nat \<Rightarrow> pending_call \<Rightarrow> failure \<Rightarrow> state \<Rightarrow> state" where
  "entryReject i p e st =
     (case completion p of
        CallPromise k \<Rightarrow> settlePromise i k (Rejected e) (clearTimeout i st)
      | Handshake \<Rightarrow>
          (clearTimeout i st)\<lparr>lastError := Some (InitializeRejected e), status := error\<rparr>)"

definition rejectAllPending :: "failure \<Rightarrow> state \<Rightarrow> state" where
  "rejectAllPending reason st =
     (if pendingRef st = [] then st
      else (fold (\<lambda>(i, p). entryReject i p reason) (pendingRef st) st)\<lparr>pendingRef := []\<rparr>)"

subsection \<open>call\<close>

text \<open>
  The state of the promise when \<^verbatim>\<open>call\<close> returns: already rejected, or registered under
  an id.
\<close>

datatype call_result = RejectedNow failure | Registered nat

definition call :: "string \<Rightarrow> caller \<Rightarrow> nat \<Rightarrow> state \<Rightarrow> call_result \<times> state" where
  "call m k now st =
     (let (i, st1) = nextId st;
          (ok, st2) = rawSend i m st1
      in if \<not> ok
         then (RejectedNow (SocketNotOpen m),
               st2\<lparr>settled := settled st2 @ [(i, Rejected (SocketNotOpen m))]\<rparr>)
         else (Registered i,
               st2\<lparr>pendingRef :=
                     AList.update i \<lparr>method_name = m, completion = CallPromise k, startedAt = now\<rparr>
                       (pendingRef st2),
                   timers :=
                     AList.update i
                       \<lparr>callback = CallTimeout m now k, duration = CALL_TIMEOUT_MS\<rparr>
                       (timers st2)\<rparr>))"

text \<open>
  \<^verbatim>\<open>await call(...)\<close>: after an immediate rejection the awaiting code goes on at once;
  otherwise it goes on when the pending record is settled.
\<close>

definition awaitCall :: "string \<Rightarrow> caller \<Rightarrow> nat \<Rightarrow> state \<Rightarrow> state" where
  "awaitCall m k now st =
     (case call m k now st of
        (RejectedNow e, st') \<Rightarrow> resume k (Rejected e) st'
      | (Registered i, st') \<Rightarrow> st')"

subsection \<open>Session operations\<close>

text \<open>The decimal digits of a number, as a template literal formats it.\<close>

fun show_nat :: "nat \<Rightarrow> string" where
  "show_nat n =
     (if n < 10 then [char_of (48 + n)]
      else show_nat (n div 10) @ [char_of (48 + n mod 10)])"

declare show_nat.simps [simp del]

definition createSession :: "string \<Rightarrow> PermissionMode \<Rightarrow> nat \<Rightarrow> state \<Rightarrow> state" where
  "createSession dir mode now st = awaitCall ''thread/start'' (AwaitCreateSession dir mode) now st"

text \<open>
  \<^verbatim>\<open>sendMessage\<close>: the session update of lines 249 to 258, then the call. \<open>now\<close> is the
  clock, read for the id of the message and for the start of the call.
\<close>

definition sendMessage :: "string \<Rightarrow> string \<Rightarrow> string option \<Rightarrow> nat \<Rightarrow> state \<Rightarrow> state" where
  "sendMessage tid text model now st =
     awaitCall ''turn/start'' AwaitSendMessage now
       (st\<lparr>sessions :=
            map (\<lambda>s. if thread_id s \<noteq> tid then s
                      else s\<lparr>messages := messages s @
                                [\<lparr>msg_id = ''user-'' @ show_nat now, role = user, content = text,
                                  items = None, streamingText = None, isStreaming = None\<rparr>],
                              lastBlockedContent := Some text,
                              hasPermissionDenial := Some False,
                              permissionDenials := None\<rparr>)
                (sessions st)\<rparr>)"

definition interruptTurn :: "string \<Rightarrow> nat \<Rightarrow> state \<Rightarrow> state" where
  "interruptTurn tid now st = awaitCall ''turn/interrupt'' AwaitInterruptTurn now st"

definition approvePermission :: "string \<Rightarrow> PermissionMode option \<Rightarrow> nat \<Rightarrow> state \<Rightarrow> state" where
  "approvePermission tid mode now st =
     awaitCall ''approval/respond'' (AwaitApprovePermission tid mode) now st"

definition changePermissionMode :: "string \<Rightarrow> PermissionMode \<Rightarrow> nat \<Rightarrow> state \<Rightarrow> state" where
  "changePermissionMode tid mode now st =
     awaitCall ''approval/respond'' (AwaitChangePermissionMode tid mode) now st"

definition setLastBlocked :: "string \<Rightarrow> string \<Rightarrow> state \<Rightarrow> state" where
  "setLastBlocked tid text st =
     st\<lparr>sessions := updateSession tid (\<lambda>s. s\<lparr>lastBlockedContent := Some text\<rparr>) (sessions st)\<rparr>"

definition dismissPermissionDenial :: "string \<Rightarrow> state \<Rightarrow> state" where
  "dismissPermissionDenial tid st =
     st\<lparr>sessions :=
          updateSession tid
            (\<lambda>s. s\<lparr>hasPermissionDenial := Some False, permissionDenials := None\<rparr>)
            (sessions st)\<rparr>"

text \<open>
  \<^verbatim>\<open>deleteSession\<close>: the interrupt is attempted when the session of the last render has a
  non-empty active turn id.
\<close>

definition deleteSession :: "string \<Rightarrow> nat \<Rightarrow> state \<Rightarrow> state" where
  "deleteSession tid now st =
     (case find (\<lambda>s. thread_id s = tid) (sessionRef st) of
        None \<Rightarrow> st\<lparr>sessions := filter (\<lambda>s. thread_id s \<noteq> tid) (sessions st)\<rparr>
      | Some session \<Rightarrow>
          if active_turn_id session \<noteq> None \<and> active_turn_id session \<noteq> Some []
          then awaitCall ''turn/interrupt'' (AwaitDeleteSession tid) now st
          else st\<lparr>sessions := filter (\<lambda>s. thread_id s \<noteq> tid) (sessions st)\<rparr>)"

subsection \<open>Connection manager\<close>

definition setReadyState :: "nat \<Rightarrow> ReadyState \<Rightarrow> state \<Rightarrow> state" where
  "setReadyState h r st = st\<lparr>sockets := (sockets st)[h := (sockets st ! h)\<lparr>readyState := r\<rparr>]\<rparr>"

text \<open>\<^verbatim>\<open>ws.close()\<close>: a socket that is connecting or open starts closing.\<close>

definition closeSocket :: "nat \<Rightarrow> state \<Rightarrow> state" where
  "closeSocket h st =
     (if h < length (sockets st) \<and> readyState (sockets st ! h) \<in> {CONNECTING, OPEN}
      then setReadyState h CLOSING st else st)"

definition connect :: "string \<Rightarrow> state \<Rightarrow> state" where
  "connect serverUrl st =
     (let fresh = (\<lambda>s. s\<lparr>status := connecting, lastError := None, url := serverUrl,
                           sockets := sockets s @ [\<lparr>ws_url = serverUrl, readyState = CONNECTING\<rparr>],
                           wsRef := Some (length (sockets s))\<rparr>)
      in case current st of
           None \<Rightarrow> fresh st
         | Some (h, existing) \<Rightarrow>
             if ws_url existing = serverUrl \<and> readyState existing \<in> {CONNECTING, OPEN}
             then st
             else fresh (closeSocket h st))"

definition disconnect :: "state \<Rightarrow> state" where
  "disconnect st =
     (case current st of
        None \<Rightarrow> st\<lparr>sessions := []\<rparr>
      | Some (h, ws) \<Rightarrow> (closeSocket h st)\<lparr>sessions := []\<rparr>)"

text \<open>\<^verbatim>\<open>ws.onopen\<close> of socket \<open>h\<close>: the handshake is registered and sent.\<close>

definition onopen :: "nat \<Rightarrow> nat \<Rightarrow> state \<Rightarrow> state" where
  "onopen h now st =
     (if wsRef st \<noteq> Some h then st
      else let (i, st1) = nextId st
           in st1\<lparr>timers :=
                    AList.update i \<lparr>callback = InitTimeout, duration = INIT_TIMEOUT_MS\<rparr>
                      (timers st1),
                  pendingRef :=
                    AList.update i
                      \<lparr>method_name = ''initialize'', completion = Handshake, startedAt = now\<rparr>
                      (pendingRef st1),
                  sent := sent st1 @ [(h, i, ''initialize'')]\<rparr>)"

text \<open>
  An inbound frame after \<^verbatim>\<open>JSON.parse\<close> and the two \<^verbatim>\<open>in\<close> tests of \<^verbatim>\<open>ws.onmessage\<close>:
  text that does not parse; a response (an \<^verbatim>\<open>id\<close> with a \<^verbatim>\<open>result\<close> or an \<^verbatim>\<open>error\<close>);
  a notification (a \<^verbatim>\<open>method\<close>, not a response); anything else. The id of a response is a
  natural number, or any other value (which is the key of no pending record). A response
  with an \<^verbatim>\<open>error\<close> member is an \<open>ErrorReply\<close>.
\<close>

datatype id_value = NumId nat | OtherId

datatype reply = ErrorReply string | ResultReply payload

datatype frame = Unparseable | Response id_value reply | Notification notification | Unrouted

definition onmessage :: "nat \<Rightarrow> frame \<Rightarrow> state \<Rightarrow> state" where
  "onmessage h f st =
     (if wsRef st \<noteq> Some h then st
      else case f of
             Unparseable \<Rightarrow> st
           | Response OtherId r \<Rightarrow> st
           | Response (NumId i) r \<Rightarrow>
               (case map_of (pendingRef st) i of
                  None \<Rightarrow> st
                | Some p \<Rightarrow>
                    (case r of
                       ErrorReply e \<Rightarrow>
                         entryReject i p (ServerError e)
                           (st\<lparr>pendingRef := AList.delete i (pendingRef st)\<rparr>)
                     | ResultReply v \<Rightarrow>
                         entryResolve i p v
                           (st\<lparr>pendingRef := AList.delete i (pendingRef st)\<rparr>)))
           | Notification n \<Rightarrow>
               st\<lparr>sessions := handleNotification (sessionRef st) n (sessions st)\<rparr>
           | Unrouted \<Rightarrow> st)"

text \<open>\<^verbatim>\<open>ws.onclose\<close> of socket \<open>h\<close>, with the code and the reason of the close event.\<close>

definition onclose :: "nat \<Rightarrow> nat \<Rightarrow> string \<Rightarrow> state \<Rightarrow> state" where
  "onclose h code reason st =
     (let st1 = (if wsRef st = Some h
                 then rejectAllPending (WebSocketClosed code) (st\<lparr>wsRef := None\<rparr>)
                 else st)
      in if code = 1000 then st1\<lparr>status := disconnected\<rparr>
         else if code = 1006
         then st1\<lparr>lastError := Some (if reason \<noteq> [] then CloseReason reason else ConnectionFailed),
                  status := error\<rparr>
         else st1\<lparr>lastError := Some (if reason \<noteq> [] then CloseReason reason
                                        else ClosedWithCode code),
                  status := error\<rparr>)"

text \<open>
  The callback of the timeout armed for id \<open>i\<close>, at clock \<open>now\<close>. A timeout that was
  cleared, or has fired, is not armed and does nothing.
\<close>

definition fireTimer :: "nat \<Rightarrow> nat \<Rightarrow> state \<Rightarrow> state" where
  "fireTimer i now st =
     (case map_of (timers st) i of
        None \<Rightarrow> st
      | Some t \<Rightarrow>
          (let st1 = clearTimeout i st
           in case callback t of
                CallTimeout m started k \<Rightarrow>
                  if map_of (pendingRef st1) i = None then st1
                  else settlePromise i k (Rejected (RequestTimedOut m (int now - int started)))
                         (st1\<lparr>pendingRef := AList.delete i (pendingRef st1)\<rparr>)
              | InitTimeout \<Rightarrow>
                  if map_of (pendingRef st1) i = None then st1
                  else st1\<lparr>pendingRef := AList.delete i (pendingRef st1),
                           lastError := Some InitializeTimedOut,
                           status := error\<rparr>))"

subsection \<open>Events\<close>

text \<open>
  Everything runs on one event loop, so the hook is a state machine over events: the
  operations the presentation layer invokes, the events of the transport on a socket, a
  timeout that fires, and a render (which stores the sessions in \<^verbatim>\<open>sessionRef\<close>). The
  transport opens a socket that is connecting, delivers frames on a socket that is open or
  closing, and closes a socket once.
\<close>

datatype event =
    Connect string
  | Disconnect
  | CreateSession string PermissionMode nat
  | SendMessage string string "string option" nat
  | InterruptTurn string nat
  | ApprovePermission string "PermissionMode option" nat
  | ChangePermissionMode string PermissionMode nat
  | SetLastBlocked string string
  | DismissPermissionDenial string
  | DeleteSession string nat
  | SocketOpened nat nat
  | SocketMessage nat frame
  | SocketClosed nat nat string
  | TimerFired nat nat
  | Render

fun step :: "event \<Rightarrow> state \<Rightarrow> state" where
  "step (Connect u) st = connect u st"
| "step Disconnect st = disconnect st"
| "step (CreateSession dir mode now) st = createSession dir mode now st"
| "step (SendMessage tid text model now) st = sendMessage tid text model now st"
| "step (InterruptTurn tid now) st = interruptTurn tid now st"
| "step (ApprovePermission tid mode now) st = approvePermission tid mode now st"
| "step (ChangePermissionMode tid mode now) st = changePermissionMode tid mode now st"
| "step (SetLastBlocked tid text) st = setLastBlocked tid text st"
| "step (DismissPermissionDenial tid) st = dismissPermissionDenial tid st"
| "step (DeleteSession tid now) st = deleteSession tid now st"
| "step (SocketOpened h now) st =
     (if h < length (sockets st) \<and> readyState (sockets st ! h) = CONNECTING
      then onopen h now (setReadyState h OPEN st) else st)"
| "step (SocketMessage h f) st =
     (if h < length (sockets st) \<and> readyState (sockets st ! h) \<in> {OPEN, CLOSING}
      then onmessage h f st else st)"
| "step (SocketClosed h code reason) st =
     (if h < length (sockets st) \<and> readyState (sockets st ! h) \<noteq> CLOSED
      then onclose h code reason (setReadyState h CLOSED st) else st)"
| "step (TimerFired i now) st = fireTimer i now st"
| "step Render st = st\<lparr>sessionRef := sessions st\<rparr>"

text \<open>The state after a sequence of events, in arrival order.\<close>

definition run :: "event list \<Rightarrow> state \<Rightarrow> state" where
  "run es st = fold step es st"

section \<open>Settlement of a call, and the invariant of the dispatcher\<close>

text \<open>The outcomes with which the promise of call \<open>i\<close> has been settled so far, in order.\<close>

definition settlementsOf :: "nat \<Rightarrow> state \<Rightarrow> outcome list" where
  "settlementsOf i st = map snd (filter (\<lambda>x. fst x = i) (settled st))"

text \<open>
  The events that settle a pending call \<open>i\<close> with record \<open>p\<close> in state \<open>st\<close> as the code
  has them, each with the outcome it stands for. They are read off the three handlers:
  \<^item> the timeout of the call fires (the callback of \<^verbatim>\<open>setTimeout\<close> in \<^verbatim>\<open>call\<close>);
  \<^item> a response with the id of the call is delivered on the socket that is current, that
    is, on the socket that passes the guard \<^verbatim>\<open>wsRef.current !== ws\<close> of \<^verbatim>\<open>ws.onmessage\<close>;
  \<^item> the socket that is current closes, that is, the socket that passes the guard
    \<^verbatim>\<open>wsRef.current === ws\<close> of \<^verbatim>\<open>ws.onclose\<close>.
  Every other event gives \<open>None\<close>; among them are a response with the id of the call and a
  close event that arrive on a socket which \<^verbatim>\<open>connect\<close> has replaced. The conditions on
  \<open>readyState\<close> are those under which \<open>step\<close> delivers the event at all.
\<close>

fun settlingOutcome :: "state \<Rightarrow> nat \<Rightarrow> pending_call \<Rightarrow> event \<Rightarrow> outcome option" where
  "settlingOutcome st i p (TimerFired j now) =
     (if j = i then Some (Rejected (RequestTimedOut (method_name p) (int now - int (startedAt p))))
      else None)"
| "settlingOutcome st i p (SocketMessage h (Response (NumId j) r)) =
     (if j = i \<and> wsRef st = Some h \<and> h < length (sockets st) \<and>
         readyState (sockets st ! h) \<in> {OPEN, CLOSING}
      then Some (case r of ErrorReply e \<Rightarrow> Rejected (ServerError e)
                         | ResultReply v \<Rightarrow> Resolved v)
      else None)"
| "settlingOutcome st i p (SocketClosed h code reason) =
     (if wsRef st = Some h \<and> h < length (sockets st) \<and> readyState (sockets st ! h) \<noteq> CLOSED
      then Some (Rejected (WebSocketClosed code))
      else None)"
| "settlingOutcome st i p e = None"

text \<open>The timeout that is armed together with a pending record.\<close>

definition timerOf :: "pending_call \<Rightarrow> timer" where
  "timerOf p =
     (case completion p of
        CallPromise k \<Rightarrow>
          \<lparr>callback = CallTimeout (method_name p) (startedAt p) k, duration = CALL_TIMEOUT_MS\<rparr>
      | Handshake \<Rightarrow> \<lparr>callback = InitTimeout, duration = INIT_TIMEOUT_MS\<rparr>)"

text \<open>
  The invariant of the dispatcher: the ids of the pending records are distinct, no promise
  was settled twice, pending and settled ids were allocated before and are disjoint, the
  timeout of every pending record is armed, and the allocated ids increase strictly and
  lie below the counter.
\<close>

definition dispatcher_inv :: "state \<Rightarrow> bool" where
  "dispatcher_inv st \<longleftrightarrow>
     distinct (map fst (pendingRef st)) \<and>
     distinct (map fst (settled st)) \<and>
     (\<forall>i\<in>fst ` set (pendingRef st). i < msgIdCounter st) \<and>
     (\<forall>i\<in>fst ` set (settled st). i < msgIdCounter st) \<and>
     fst ` set (pendingRef st) \<inter> fst ` set (settled st) = {} \<and>
     (\<forall>x\<in>set (pendingRef st). map_of (timers st) (fst x) = Some (timerOf (snd x))) \<and>
     sorted_wrt (<) (allocated st) \<and>
     (\<forall>i\<in>set (allocated st). i < msgIdCounter st)"

section \<open>Auxiliary facts about the list functions\<close>

lemma find_None_set: "find P xs = None \<longleftrightarrow> (\<forall>x\<in>set xs. \<not> P x)"
  by (induction xs) auto

lemma find_Some_D: "find P xs = Some x \<Longrightarrow> x \<in> set xs \<and> P x"
  by (induction xs) (auto split: if_splits)

lemma findIndex_None: "findIndex P xs = None \<longleftrightarrow> (\<forall>x\<in>set xs. \<not> P x)"
  by (induction xs) auto

lemma findIndex_Some: "findIndex P xs = Some i \<Longrightarrow> i < length xs \<and> P (xs ! i)"
  by (induction xs arbitrary: i) (auto split: if_splits)

lemma list_update_keeps:
  assumes "m \<in> set f" and "idx < length f" and "f ! idx \<noteq> m"
  shows "m \<in> set (f[idx := x])"
proof -
  obtain n where n: "n < length f" "f ! n = m"
    using assms(1) by (meson in_set_conv_nth)
  then have "n \<noteq> idx"
    using assms(3) by auto
  then have "(f[idx := x]) ! n = m"
    using n by simp
  then show ?thesis
    using n by (metis length_list_update nth_mem)
qed

text \<open>
  The two ways \<open>appendItem\<close> ends: the per-turn message is pushed, or the message at the
  first position with the per-turn id is overwritten.
\<close>

lemma appendItem_cases:
  fixes tid it msgs
  defines "f \<equiv> filter (\<lambda>m. \<not> (isStreaming m = Some True \<and> item_type (si_item it) = ''text'')) msgs"
  shows "(find (\<lambda>m. role m = assistant \<and> msg_id m = ''turn-'' @ tid) f = None \<and>
          appendItem tid it msgs =
            f @ [\<lparr>msg_id = ''turn-'' @ tid, role = assistant, content = [], items = Some [it],
                  streamingText = None, isStreaming = Some False\<rparr>]) \<or>
         (\<exists>a idx. find (\<lambda>m. role m = assistant \<and> msg_id m = ''turn-'' @ tid) f = Some a \<and>
            a \<in> set f \<and> role a = assistant \<and> msg_id a = ''turn-'' @ tid \<and>
            findIndex (\<lambda>m. msg_id m = ''turn-'' @ tid) f = Some idx \<and>
            idx < length f \<and> msg_id (f ! idx) = ''turn-'' @ tid \<and>
            appendItem tid it msgs = f[idx := a\<lparr>items := Some (nullish (items a) [] @ [it])\<rparr>])"
proof (cases "find (\<lambda>m. role m = assistant \<and> msg_id m = ''turn-'' @ tid) f")
  case None
  then show ?thesis
    by (simp add: appendItem_def Let_def f_def)
next
  case (Some a)
  then have a: "a \<in> set f" "role a = assistant" "msg_id a = ''turn-'' @ tid"
    using find_Some_D[OF Some] by simp_all
  then have "findIndex (\<lambda>m. msg_id m = ''turn-'' @ tid) f \<noteq> None"
    unfolding findIndex_None by blast
  then obtain idx where i: "findIndex (\<lambda>m. msg_id m = ''turn-'' @ tid) f = Some idx"
    by blast
  have ii: "idx < length f" "msg_id (f ! idx) = ''turn-'' @ tid"
    using findIndex_Some[OF i] by simp_all
  have "appendItem tid it msgs = f[idx := a\<lparr>items := Some (nullish (items a) [] @ [it])\<rparr>]"
    using Some i by (simp add: appendItem_def Let_def f_def)
  then show ?thesis
    using Some a i ii by blast
qed

text \<open>The defining equations, for evaluating the model on concrete events.\<close>

lemmas hook_defs =
  run_def initial_def connect_def disconnect_def closeSocket_def current_def transportOpen_def
  onopen_def onmessage_def onclose_def fireTimer_def nextId_def setReadyState_def
  rawSend_def call_def awaitCall_def clearTimeout_def settlePromise_def entryResolve_def
  entryReject_def rejectAllPending_def createSession_def sendMessage_def interruptTurn_def
  approvePermission_def changePermissionMode_def setLastBlocked_def
  dismissPermissionDenial_def deleteSession_def updateSession_def
  CALL_TIMEOUT_MS_def INIT_TIMEOUT_MS_def

lemma show_nat_12: "show_nat 12 = ''12''"
  by code_simp

section \<open>The notification router\<close>

text \<open>
  Claim C4, as stated: an \<^verbatim>\<open>item/created\<close> notification whose turn id is the active turn
  id of some session drops every streaming message of that session, whatever the variant
  of the created item, and appends the item to the per-turn message. It fails in two ways.
  \<^item> For an item that is not a text item the filter of line 109 keeps the streaming
    messages: below, a session with one streaming message receives a thinking item, and
    the streaming message is still there, before the new per-turn message.
  \<^item> The session is looked up in \<^verbatim>\<open>sessionRef.current\<close>, the session list of the last
    render, not in the store: below, \<^verbatim>\<open>turn/started\<close> has set the active turn of the
    session in the store and no render has followed, and the \<^verbatim>\<open>item/created\<close>
    notification of that turn is dropped (the session has no message afterwards).
\<close>

theorem item_created_keeps_streaming_counterexample:
  "handleNotification
     [\<lparr>thread_id = ''t1'', created_at = 0, cwd = ''/w'', permission_mode = default_mode,
       turns = [], active_turn_id = Some ''r1'',
       messages = [\<lparr>msg_id = ''streaming-r1'', role = assistant, content = [],
                    items = Some [], streamingText = Some ''He'', isStreaming = Some True\<rparr>],
       lastBlockedContent = None, hasPermissionDenial = None, permissionDenials = None\<rparr>]
     (ItemCreated ''r1'' \<lparr>si_id = ''i1'', si_created_at = 1, si_item = ThinkingItem ''hm''\<rparr>)
     [\<lparr>thread_id = ''t1'', created_at = 0, cwd = ''/w'', permission_mode = default_mode,
       turns = [], active_turn_id = Some ''r1'',
       messages = [\<lparr>msg_id = ''streaming-r1'', role = assistant, content = [],
                    items = Some [], streamingText = Some ''He'', isStreaming = Some True\<rparr>],
       lastBlockedContent = None, hasPermissionDenial = None, permissionDenials = None\<rparr>]
   = [\<lparr>thread_id = ''t1'', created_at = 0, cwd = ''/w'', permission_mode = default_mode,
       turns = [], active_turn_id = Some ''r1'',
       messages = [\<lparr>msg_id = ''streaming-r1'', role = assistant, content = [],
                    items = Some [], streamingText = Some ''He'', isStreaming = Some True\<rparr>,
                   \<lparr>msg_id = ''turn-r1'', role = assistant, content = [],
                    items = Some [\<lparr>si_id = ''i1'', si_created_at = 1,
                                   si_item = ThinkingItem ''hm''\<rparr>],
                    streamingText = None, isStreaming = Some False\<rparr>],
       lastBlockedContent = None, hasPermissionDenial = None, permissionDenials = None\<rparr>] \<and>
   map active_turn_id
     (sessions (run [Connect ''ws://a'', SocketOpened 0 5, CreateSession ''/w'' default_mode 6,
                     SocketMessage 0 (Response (NumId 2) (ResultReply (ThreadStartResult ''t1'' 3))),
                     Render,
                     SocketMessage 0 (Notification (TurnStarted ''r1'' ''t1''))] initial)) =
     [Some ''r1''] \<and>
   map messages
     (sessions (run [Connect ''ws://a'', SocketOpened 0 5, CreateSession ''/w'' default_mode 6,
                     SocketMessage 0 (Response (NumId 2) (ResultReply (ThreadStartResult ''t1'' 3))),
                     Render,
                     SocketMessage 0 (Notification (TurnStarted ''r1'' ''t1'')),
                     SocketMessage 0 (Notification (ItemCreated ''r1''
                       \<lparr>si_id = ''i1'', si_created_at = 1, si_item = TextItem ''Hello''\<rparr>))]
                  initial)) = [[]]"
  by (simp add: appendItem_def hook_defs)

text \<open>
  Claim C4, amended. Let an \<^verbatim>\<open>item/created\<close> notification carry the turn id \<open>tid\<close>, let
  \<open>session\<close> be the first session whose active turn is \<open>tid\<close> in the session list of the
  last render (\<open>cur\<close>, which is \<^verbatim>\<open>sessionRef.current\<close>), and take a session of the store
  (\<open>prev\<close>) with the thread id of \<open>session\<close>. Let \<open>kept\<close> be its messages without the
  streaming ones if the item is a text item, and all its messages otherwise. Then, in the
  new message list \<open>new\<close> of that session:
  \<^item> no message is streaming, if the item is a text item;
  \<^item> every message of \<open>kept\<close> with another id than \<^verbatim>\<open>turn-<tid>\<close> is still there;
  \<^item> on the first item of the turn (no assistant message with the id \<^verbatim>\<open>turn-<tid>\<close> is in
    \<open>kept\<close>) the new list is \<open>kept\<close> followed by a new assistant message with that id and
    the item as its only item;
  \<^item> otherwise the new list is \<open>kept\<close> with the message at the first position that has
    the id \<^verbatim>\<open>turn-<tid>\<close> replaced by the per-turn assistant message with the item added
    at the end of its items.
\<close>

theorem item_created_appends:
  assumes found: "find (\<lambda>s. active_turn_id s = Some tid) cur = Some session"
    and j: "j < length prev"
    and same: "thread_id (prev ! j) = thread_id session"
    and new: "new = messages (handleNotification cur (ItemCreated tid it) prev ! j)"
    and kept: "kept = filter (\<lambda>m. \<not> (isStreaming m = Some True \<and>
                                        item_type (si_item it) = ''text''))
                        (messages (prev ! j))"
  shows "(item_type (si_item it) = ''text'' \<longrightarrow> (\<forall>m\<in>set new. isStreaming m \<noteq> Some True)) \<and>
         (item_type (si_item it) \<noteq> ''text'' \<longrightarrow> kept = messages (prev ! j)) \<and>
         (\<forall>m\<in>set kept. msg_id m \<noteq> ''turn-'' @ tid \<longrightarrow> m \<in> set new) \<and>
         (find (\<lambda>m. role m = assistant \<and> msg_id m = ''turn-'' @ tid) kept = None \<longrightarrow>
            new = kept @ [\<lparr>msg_id = ''turn-'' @ tid, role = assistant, content = [],
                           items = Some [it], streamingText = None,
                           isStreaming = Some False\<rparr>]) \<and>
         (\<forall>a. find (\<lambda>m. role m = assistant \<and> msg_id m = ''turn-'' @ tid) kept = Some a \<longrightarrow>
            length new = length kept \<and>
            a\<lparr>items := Some (nullish (items a) [] @ [it])\<rparr> \<in> set new \<and>
            (\<exists>idx. findIndex (\<lambda>m. msg_id m = ''turn-'' @ tid) kept = Some idx \<and>
                   idx < length kept \<and>
                   new = kept[idx := a\<lparr>items := Some (nullish (items a) [] @ [it])\<rparr>]))"
proof -
  have new': "new = appendItem tid it (messages (prev ! j))"
    using found j same by (simp add: new)
  have streaming: "\<forall>m\<in>set kept. isStreaming m \<noteq> Some True"
    if "item_type (si_item it) = ''text''"
    using that by (simp add: kept)
  have all_kept: "kept = messages (prev ! j)" if "item_type (si_item it) \<noteq> ''text''"
    using that by (simp add: kept)
  have "(find (\<lambda>m. role m = assistant \<and> msg_id m = ''turn-'' @ tid) kept = None \<and>
          new = kept @ [\<lparr>msg_id = ''turn-'' @ tid, role = assistant, content = [],
                         items = Some [it], streamingText = None, isStreaming = Some False\<rparr>]) \<or>
        (\<exists>a idx. find (\<lambda>m. role m = assistant \<and> msg_id m = ''turn-'' @ tid) kept = Some a \<and>
           a \<in> set kept \<and> role a = assistant \<and> msg_id a = ''turn-'' @ tid \<and>
           findIndex (\<lambda>m. msg_id m = ''turn-'' @ tid) kept = Some idx \<and>
           idx < length kept \<and> msg_id (kept ! idx) = ''turn-'' @ tid \<and>
           new = kept[idx := a\<lparr>items := Some (nullish (items a) [] @ [it])\<rparr>])"
    unfolding new' kept by (rule appendItem_cases)
  then consider
    (first) "find (\<lambda>m. role m = assistant \<and> msg_id m = ''turn-'' @ tid) kept = None"
      "new = kept @ [\<lparr>msg_id = ''turn-'' @ tid, role = assistant, content = [],
                      items = Some [it], streamingText = None, isStreaming = Some False\<rparr>]"
  | (later) a idx where
      "find (\<lambda>m. role m = assistant \<and> msg_id m = ''turn-'' @ tid) kept = Some a"
      "a \<in> set kept" "idx < length kept" "msg_id (kept ! idx) = ''turn-'' @ tid"
      "new = kept[idx := a\<lparr>items := Some (nullish (items a) [] @ [it])\<rparr>]"
      "findIndex (\<lambda>m. msg_id m = ''turn-'' @ tid) kept = Some idx"
    by (elim disjE conjE exE) auto
  then show ?thesis
  proof cases
    case first
    have "\<forall>m\<in>set new. isStreaming m \<noteq> Some True" if "item_type (si_item it) = ''text''"
      using streaming[OF that] first(2) by simp
    moreover have "\<forall>m\<in>set kept. msg_id m \<noteq> ''turn-'' @ tid \<longrightarrow> m \<in> set new"
      using first(2) by simp
    ultimately show ?thesis
      using first all_kept by simp
  next
    case later
    have a_str: "isStreaming a \<noteq> Some True" if "item_type (si_item it) = ''text''"
      using streaming[OF that] later(2) by blast
    have sub: "set new \<subseteq> insert (a\<lparr>items := Some (nullish (items a) [] @ [it])\<rparr>) (set kept)"
      unfolding later(5) by (rule set_update_subset_insert)
    have "\<forall>m\<in>set new. isStreaming m \<noteq> Some True" if "item_type (si_item it) = ''text''"
    proof
      fix m assume "m \<in> set new"
      then have "m = a\<lparr>items := Some (nullish (items a) [] @ [it])\<rparr> \<or> m \<in> set kept"
        using sub by blast
      then show "isStreaming m \<noteq> Some True"
        using a_str[OF that] streaming[OF that] by auto
    qed
    moreover have "\<forall>m\<in>set kept. msg_id m \<noteq> ''turn-'' @ tid \<longrightarrow> m \<in> set new"
    proof (intro ballI impI)
      fix m assume m: "m \<in> set kept" "msg_id m \<noteq> ''turn-'' @ tid"
      then have "kept ! idx \<noteq> m"
        using later(4) by auto
      then show "m \<in> set new"
        unfolding later(5) using m(1) later(3) by (rule_tac list_update_keeps)
    qed
    moreover have "a\<lparr>items := Some (nullish (items a) [] @ [it])\<rparr> \<in> set new"
      unfolding later(5) using later(3) by (simp add: set_update_memI)
    moreover have "length new = length kept"
      unfolding later(5) by simp
    moreover have "\<exists>idx. findIndex (\<lambda>m. msg_id m = ''turn-'' @ tid) kept = Some idx \<and>
                     idx < length kept \<and>
                     new = kept[idx := a\<lparr>items := Some (nullish (items a) [] @ [it])\<rparr>]"
      using later(3,5,6) by blast
    ultimately show ?thesis
      using later(1) all_kept by simp
  qed
qed

theorem item_created_appends_witness:
  "find (\<lambda>s. active_turn_id s = Some ''r1'')
     [\<lparr>thread_id = ''t1'', created_at = 0, cwd = ''/w'', permission_mode = default_mode,
       turns = [], active_turn_id = Some ''r1'',
       messages = [\<lparr>msg_id = ''user-12'', role = user, content = ''hi'', items = None,
                    streamingText = None, isStreaming = None\<rparr>,
                   \<lparr>msg_id = ''streaming-r1'', role = assistant, content = [],
                    items = Some [], streamingText = Some ''He'', isStreaming = Some True\<rparr>],
       lastBlockedContent = Some ''hi'', hasPermissionDenial = Some False,
       permissionDenials = None\<rparr>] \<noteq> None \<and>
   messages (handleNotification
     [\<lparr>thread_id = ''t1'', created_at = 0, cwd = ''/w'', permission_mode = default_mode,
       turns = [], active_turn_id = Some ''r1'',
       messages = [\<lparr>msg_id = ''user-12'', role = user, content = ''hi'', items = None,
                    streamingText = None, isStreaming = None\<rparr>,
                   \<lparr>msg_id = ''streaming-r1'', role = assistant, content = [],
                    items = Some [], streamingText = Some ''He'', isStreaming = Some True\<rparr>],
       lastBlockedContent = Some ''hi'', hasPermissionDenial = Some False,
       permissionDenials = None\<rparr>]
     (ItemCreated ''r1'' \<lparr>si_id = ''i1'', si_created_at = 1, si_item = TextItem ''Hello''\<rparr>)
     [\<lparr>thread_id = ''t1'', created_at = 0, cwd = ''/w'', permission_mode = default_mode,
       turns = [], active_turn_id = Some ''r1'',
       messages = [\<lparr>msg_id = ''user-12'', role = user, content = ''hi'', items = None,
                    streamingText = None, isStreaming = None\<rparr>,
                   \<lparr>msg_id = ''streaming-r1'', role = assistant, content = [],
                    items = Some [], streamingText = Some ''He'', isStreaming = Some True\<rparr>],
       lastBlockedContent = Some ''hi'', hasPermissionDenial = Some False,
       permissionDenials = None\<rparr>] ! 0)
   = [\<lparr>msg_id = ''user-12'', role = user, content = ''hi'', items = None,
       streamingText = None, isStreaming = None\<rparr>,
      \<lparr>msg_id = ''turn-r1'', role = assistant, content = [],
       items = Some [\<lparr>si_id = ''i1'', si_created_at = 1, si_item = TextItem ''Hello''\<rparr>],
       streamingText = None, isStreaming = Some False\<rparr>]"
proof -
  let ?U = "\<lparr>msg_id = ''user-12'', role = user, content = ''hi'', items = None,
             streamingText = None, isStreaming = None\<rparr>"
  let ?M = "\<lparr>msg_id = ''streaming-r1'', role = assistant, content = [],
             items = Some [], streamingText = Some ''He'', isStreaming = Some True\<rparr>"
  let ?S = "\<lparr>thread_id = ''t1'', created_at = 0, cwd = ''/w'', permission_mode = default_mode,
             turns = [], active_turn_id = Some ''r1'', messages = [?U, ?M],
             lastBlockedContent = Some ''hi'', hasPermissionDenial = Some False,
             permissionDenials = None\<rparr>"
  let ?I = "\<lparr>si_id = ''i1'', si_created_at = 1, si_item = TextItem ''Hello''\<rparr>"
  have found: "find (\<lambda>s. active_turn_id s = Some ''r1'') [?S] = Some ?S"
    by simp
  have j: "(0::nat) < length [?S]"
    by simp
  have same: "thread_id ([?S] ! 0) = thread_id ?S"
    by simp
  have kept: "[?U] = filter (\<lambda>m. \<not> (isStreaming m = Some True \<and>
                                      item_type (si_item ?I) = ''text''))
                      (messages ([?S] ! 0))"
    by simp
  have none: "find (\<lambda>m. role m = assistant \<and> msg_id m = ''turn-'' @ ''r1'') [?U] = None"
    by simp
  show ?thesis
    using item_created_appends[OF found j same refl kept] none found by simp
qed

text \<open>
  Claim C6: after a \<^verbatim>\<open>turn/completed\<close> or \<^verbatim>\<open>turn/error\<close> notification for a thread,
  every session of that thread has no active turn and no message marked streaming: each
  message that was streaming is no longer streaming and has an item list (the empty one
  if it had none), and the other messages are as before. Sessions of other threads are
  unchanged.
\<close>

theorem turn_end_clears_streaming:
  assumes "n = TurnCompleted tid thread \<or> n = TurnError tid thread"
    and "j < length prev"
  shows "length (handleNotification cur n prev) = length prev \<and>
    (thread_id (prev ! j) \<noteq> thread \<longrightarrow> handleNotification cur n prev ! j = prev ! j) \<and>
    (thread_id (prev ! j) = thread \<longrightarrow>
       thread_id (handleNotification cur n prev ! j) = thread \<and>
       active_turn_id (handleNotification cur n prev ! j) = None \<and>
       (\<forall>m\<in>set (messages (handleNotification cur n prev ! j)). isStreaming m \<noteq> Some True) \<and>
       messages (handleNotification cur n prev ! j) =
         map (\<lambda>m. if isStreaming m = Some True
                   then m\<lparr>items := Some (case items m of None \<Rightarrow> [] | Some xs \<Rightarrow> xs),
                          isStreaming := Some False\<rparr>
                   else m)
             (messages (prev ! j)))"
proof -
  have n: "handleNotification cur n prev = updateSession thread finishTurn prev"
    using assms(1) by auto
  have i: "nullish x [] = (case x of None \<Rightarrow> [] | Some xs \<Rightarrow> xs)"
    for x :: "StoredItem list option"
    by (cases x) simp_all
  show ?thesis
    unfolding n using assms(2)
    by (auto simp: updateSession_def finishTurn_def i)
qed

theorem turn_end_clears_streaming_witness:
  "(0::nat) < length
     [\<lparr>thread_id = ''t1'', created_at = 0, cwd = ''/w'', permission_mode = default_mode,
       turns = [], active_turn_id = Some ''r1'',
       messages = [\<lparr>msg_id = ''streaming-r1'', role = assistant, content = [],
                    items = None, streamingText = Some ''Hello'', isStreaming = Some True\<rparr>],
       lastBlockedContent = None, hasPermissionDenial = None, permissionDenials = None\<rparr>] \<and>
   handleNotification [] (TurnCompleted ''r1'' ''t1'')
     [\<lparr>thread_id = ''t1'', created_at = 0, cwd = ''/w'', permission_mode = default_mode,
       turns = [], active_turn_id = Some ''r1'',
       messages = [\<lparr>msg_id = ''streaming-r1'', role = assistant, content = [],
                    items = None, streamingText = Some ''Hello'', isStreaming = Some True\<rparr>],
       lastBlockedContent = None, hasPermissionDenial = None, permissionDenials = None\<rparr>] ! 0
   = \<lparr>thread_id = ''t1'', created_at = 0, cwd = ''/w'', permission_mode = default_mode,
       turns = [], active_turn_id = None,
       messages = [\<lparr>msg_id = ''streaming-r1'', role = assistant, content = [],
                    items = Some [], streamingText = Some ''Hello'', isStreaming = Some False\<rparr>],
       lastBlockedContent = None, hasPermissionDenial = None, permissionDenials = None\<rparr>"
proof -
  let ?S = "\<lparr>thread_id = ''t1'', created_at = 0, cwd = ''/w'', permission_mode = default_mode,
       turns = [], active_turn_id = Some ''r1'',
       messages = [\<lparr>msg_id = ''streaming-r1'', role = assistant, content = [],
                    items = None, streamingText = Some ''Hello'', isStreaming = Some True\<rparr>],
       lastBlockedContent = None, hasPermissionDenial = None, permissionDenials = None\<rparr>"
  have n: "TurnCompleted ''r1'' ''t1'' = TurnCompleted ''r1'' ''t1'' \<or>
           TurnCompleted ''r1'' ''t1'' = TurnError ''r1'' ''t1''"
    by simp
  have j: "(0::nat) < length [?S]"
    by simp
  show ?thesis
    using turn_end_clears_streaming[OF n j, of "[]"]
    by (simp add: updateSession_def finishTurn_def)
qed

text \<open>
  Claim C10, as stated: an \<^verbatim>\<open>item/progress\<close> or \<^verbatim>\<open>item/created\<close> notification whose turn
  id is the active turn id of no session leaves the session store unchanged. It fails on
  the store, because the handler looks the session up in \<^verbatim>\<open>sessionRef.current\<close>, the
  session list of the last render. Below, a turn is started and rendered, then
  \<^verbatim>\<open>turn/completed\<close> clears the active turn in the store and no render has followed: no
  session of the store has the turn \<^verbatim>\<open>r1\<close> any more, and an \<^verbatim>\<open>item/created\<close> notification
  of \<^verbatim>\<open>r1\<close> still adds a message to the session.
\<close>

theorem unmatched_item_event_changes_store_counterexample:
  "map active_turn_id
     (sessions (run [Connect ''ws://a'', SocketOpened 0 5, CreateSession ''/w'' default_mode 6,
                     SocketMessage 0 (Response (NumId 2) (ResultReply (ThreadStartResult ''t1'' 3))),
                     SocketMessage 0 (Notification (TurnStarted ''r1'' ''t1'')),
                     Render,
                     SocketMessage 0 (Notification (TurnCompleted ''r1'' ''t1''))] initial)) =
     [None] \<and>
   map messages
     (sessions (run [Connect ''ws://a'', SocketOpened 0 5, CreateSession ''/w'' default_mode 6,
                     SocketMessage 0 (Response (NumId 2) (ResultReply (ThreadStartResult ''t1'' 3))),
                     SocketMessage 0 (Notification (TurnStarted ''r1'' ''t1'')),
                     Render,
                     SocketMessage 0 (Notification (TurnCompleted ''r1'' ''t1''))] initial)) =
     [[]] \<and>
   map messages
     (sessions (run [Connect ''ws://a'', SocketOpened 0 5, CreateSession ''/w'' default_mode 6,
                     SocketMessage 0 (Response (NumId 2) (ResultReply (ThreadStartResult ''t1'' 3))),
                     SocketMessage 0 (Notification (TurnStarted ''r1'' ''t1'')),
                     Render,
                     SocketMessage 0 (Notification (TurnCompleted ''r1'' ''t1'')),
                     SocketMessage 0 (Notification (ItemCreated ''r1''
                       \<lparr>si_id = ''i1'', si_created_at = 1, si_item = TextItem ''Hello''\<rparr>))]
                  initial)) =
     [[\<lparr>msg_id = ''turn-r1'', role = assistant, content = [],
        items = Some [\<lparr>si_id = ''i1'', si_created_at = 1, si_item = TextItem ''Hello''\<rparr>],
        streamingText = None, isStreaming = Some False\<rparr>]]"
  by (simp add: hook_defs finishTurn_def appendItem_def)

text \<open>
  Claim C10, amended: an \<^verbatim>\<open>item/progress\<close> or \<^verbatim>\<open>item/created\<close> notification whose turn id
  is the active turn id of no session in the session list of the last render
  (\<^verbatim>\<open>sessionRef.current\<close>, which is the list the handler searches) leaves the session
  store unchanged, whatever the store is; delivered on a socket, it leaves the whole state
  unchanged.
\<close>

theorem unmatched_item_event_dropped:
  assumes "\<forall>s\<in>set (sessionRef st). active_turn_id s \<noteq> Some tid"
    and "n = ItemProgress tid d \<or> n = ItemCreated tid it"
  shows "handleNotification (sessionRef st) n prev = prev \<and>
         step (SocketMessage h (Notification n)) st = st"
proof -
  have f: "find (\<lambda>s. active_turn_id s = Some tid) (sessionRef st) = None"
    using assms(1) by (simp add: find_None_set)
  have a: "handleNotification (sessionRef st) n prev = prev" for prev
    using assms(2) f by auto
  show ?thesis
    using a by (simp add: onmessage_def)
qed

theorem unmatched_item_event_dropped_witness:
  "map active_turn_id
     (sessionRef (run [Connect ''ws://a'', SocketOpened 0 5, CreateSession ''/w'' default_mode 6,
                       SocketMessage 0 (Response (NumId 2) (ResultReply (ThreadStartResult ''t1'' 3))),
                       SocketMessage 0 (Notification (TurnStarted ''r1'' ''t1'')),
                       Render] initial)) = [Some ''r1''] \<and>
   wsRef (run [Connect ''ws://a'', SocketOpened 0 5, CreateSession ''/w'' default_mode 6,
               SocketMessage 0 (Response (NumId 2) (ResultReply (ThreadStartResult ''t1'' 3))),
               SocketMessage 0 (Notification (TurnStarted ''r1'' ''t1'')),
               Render] initial) = Some 0 \<and>
   map readyState
     (sockets (run [Connect ''ws://a'', SocketOpened 0 5, CreateSession ''/w'' default_mode 6,
                    SocketMessage 0 (Response (NumId 2) (ResultReply (ThreadStartResult ''t1'' 3))),
                    SocketMessage 0 (Notification (TurnStarted ''r1'' ''t1'')),
                    Render] initial)) = [OPEN] \<and>
   step (SocketMessage 0 (Notification (ItemCreated ''r2''
           \<lparr>si_id = ''i1'', si_created_at = 1, si_item = TextItem ''x''\<rparr>)))
     (run [Connect ''ws://a'', SocketOpened 0 5, CreateSession ''/w'' default_mode 6,
           SocketMessage 0 (Response (NumId 2) (ResultReply (ThreadStartResult ''t1'' 3))),
           SocketMessage 0 (Notification (TurnStarted ''r1'' ''t1'')),
           Render] initial) =
   run [Connect ''ws://a'', SocketOpened 0 5, CreateSession ''/w'' default_mode 6,
        SocketMessage 0 (Response (NumId 2) (ResultReply (ThreadStartResult ''t1'' 3))),
        SocketMessage 0 (Notification (TurnStarted ''r1'' ''t1'')),
        Render] initial"
proof -
  let ?st = "run [Connect ''ws://a'', SocketOpened 0 5, CreateSession ''/w'' default_mode 6,
                  SocketMessage 0 (Response (NumId 2) (ResultReply (ThreadStartResult ''t1'' 3))),
                  SocketMessage 0 (Notification (TurnStarted ''r1'' ''t1'')),
                  Render] initial"
  let ?n = "ItemCreated ''r2'' \<lparr>si_id = ''i1'', si_created_at = 1, si_item = TextItem ''x''\<rparr>"
  have ref: "sessionRef ?st =
      [\<lparr>thread_id = ''t1'', created_at = 3, cwd = ''/w'', permission_mode = default_mode,
        turns = [], active_turn_id = Some ''r1'', messages = [], lastBlockedContent = None,
        hasPermissionDenial = None, permissionDenials = None\<rparr>]"
    and sock: "wsRef ?st = Some 0" "map readyState (sockets ?st) = [OPEN]"
    by (simp_all add: hook_defs)
  have h: "\<forall>s\<in>set (sessionRef ?st). active_turn_id s \<noteq> Some ''r2''"
    unfolding ref by simp
  have n: "?n = ItemProgress ''r2'' \<lparr>delta_type = ''text'', delta_text = None\<rparr> \<or>
           ?n = ItemCreated ''r2'' \<lparr>si_id = ''i1'', si_created_at = 1, si_item = TextItem ''x''\<rparr>"
    by simp
  note dropped = unmatched_item_event_dropped[OF h n, of "sessions ?st" 0, THEN conjunct2]
  show ?thesis
    using dropped sock by (simp add: ref)
qed

section \<open>The call dispatcher\<close>

text \<open>
  Claim C2, as stated: the timeout armed for the handshake is strictly longer than the
  timeout armed for an ordinary call. In the code it is the other way round: after a
  connection has opened and one call was made, the handshake (id 1) has a timeout of
  10000 ms and the call (id 2) one of 30000 ms.
\<close>

theorem handshake_timeout_longer_counterexample:
  "timers (run [Connect ''ws://a'', SocketOpened 0 1, InterruptTurn ''t1'' 2] initial) =
     [(1, \<lparr>callback = InitTimeout, duration = 10000\<rparr>),
      (2, \<lparr>callback = CallTimeout ''turn/interrupt'' 2 AwaitInterruptTurn, duration = 30000\<rparr>)] \<and>
   \<not> ((30000::nat) < 10000)"
  by (simp add: run_def initial_def connect_def current_def onopen_def nextId_def
      setReadyState_def interruptTurn_def awaitCall_def call_def rawSend_def
      CALL_TIMEOUT_MS_def INIT_TIMEOUT_MS_def)

text \<open>
  Claim C2, amended: \<^verbatim>\<open>ws.onopen\<close> arms the timeout of the handshake with the fixed
  duration \<open>INIT_TIMEOUT_MS\<close> (10000 ms) and \<^verbatim>\<open>call\<close> arms the timeout of every call it
  registers with the fixed duration \<open>CALL_TIMEOUT_MS\<close> (30000 ms); the handshake timeout
  is strictly shorter.
\<close>

theorem handshake_timeout_shorter:
  assumes "wsRef st = Some h"
    and "call m k now st' = (Registered i, st'')"
  shows "map_of (timers (onopen h now0 st)) (msgIdCounter st) =
           Some \<lparr>callback = InitTimeout, duration = INIT_TIMEOUT_MS\<rparr> \<and>
         map_of (timers st'') i =
           Some \<lparr>callback = CallTimeout m now k, duration = CALL_TIMEOUT_MS\<rparr> \<and>
         INIT_TIMEOUT_MS = 10000 \<and> CALL_TIMEOUT_MS = 30000 \<and>
         INIT_TIMEOUT_MS < CALL_TIMEOUT_MS"
proof -
  have a: "map_of (timers (onopen h now0 st)) (msgIdCounter st) =
             Some \<lparr>callback = InitTimeout, duration = INIT_TIMEOUT_MS\<rparr>"
    using assms(1) by (simp add: onopen_def nextId_def update_conv')
  have b: "map_of (timers st'') i =
             Some \<lparr>callback = CallTimeout m now k, duration = CALL_TIMEOUT_MS\<rparr>"
    using assms(2)
    by (auto simp: call_def nextId_def Let_def update_conv' split: prod.splits if_splits)
  show ?thesis
    using a b by (simp add: INIT_TIMEOUT_MS_def CALL_TIMEOUT_MS_def)
qed

theorem handshake_timeout_shorter_witness:
  "wsRef (run [Connect ''ws://a''] initial) = Some 0 \<and>
   map_of (timers (onopen 0 1 (run [Connect ''ws://a''] initial))) 1 =
     Some \<lparr>callback = InitTimeout, duration = 10000\<rparr> \<and>
   map_of (timers (snd (call ''turn/interrupt'' AwaitInterruptTurn 2
       (run [Connect ''ws://a'', SocketOpened 0 1] initial)))) 2 =
     Some \<lparr>callback = CallTimeout ''turn/interrupt'' 2 AwaitInterruptTurn, duration = 30000\<rparr>"
proof -
  let ?st = "run [Connect ''ws://a''] initial"
  let ?st' = "run [Connect ''ws://a'', SocketOpened 0 1] initial"
  have h: "wsRef ?st = Some 0"
    by (simp add: run_def initial_def connect_def current_def)
  have c0: "msgIdCounter ?st = 1"
    by (simp add: run_def initial_def connect_def current_def)
  have c: "call ''turn/interrupt'' AwaitInterruptTurn 2 ?st' =
             (Registered 2, snd (call ''turn/interrupt'' AwaitInterruptTurn 2 ?st'))"
    by (simp add: run_def initial_def connect_def current_def onopen_def nextId_def
        setReadyState_def call_def rawSend_def)
  show ?thesis
    using handshake_timeout_shorter[OF h c, of 1] h c0 by simp
qed

text \<open>
  Claim C7: a \<^verbatim>\<open>call\<close> made while the transport is not open (no current socket, or one
  whose state is not \<^verbatim>\<open>OPEN\<close>) rejects its promise at once with the socket-not-open
  error. It consumes a correlation id and changes nothing else: no pending record, no
  timer, nothing sent, the session store as before.
\<close>

theorem call_without_open_socket:
  assumes "\<not> transportOpen st"
  shows "call m k now st =
           (RejectedNow (SocketNotOpen m),
            st\<lparr>msgIdCounter := msgIdCounter st + 1,
               allocated := allocated st @ [msgIdCounter st],
               settled := settled st @ [(msgIdCounter st, Rejected (SocketNotOpen m))]\<rparr>) \<and>
         pendingRef (snd (call m k now st)) = pendingRef st \<and>
         timers (snd (call m k now st)) = timers st \<and>
         sessions (snd (call m k now st)) = sessions st \<and>
         sessionRef (snd (call m k now st)) = sessionRef st \<and>
         sent (snd (call m k now st)) = sent st"
proof -
  have "rawSend i m s = (False, s)" if "\<not> transportOpen s" for i s
    using that by (auto simp: rawSend_def transportOpen_def split: option.splits)
  moreover have "current (snd (nextId st)) = current st"
    by (auto simp: current_def nextId_def split: option.splits)
  then have "\<not> transportOpen (snd (nextId st))"
    using assms by (simp add: transportOpen_def)
  ultimately have "call m k now st =
           (RejectedNow (SocketNotOpen m),
            st\<lparr>msgIdCounter := msgIdCounter st + 1,
               allocated := allocated st @ [msgIdCounter st],
               settled := settled st @ [(msgIdCounter st, Rejected (SocketNotOpen m))]\<rparr>)"
    by (simp add: call_def nextId_def)
  then show ?thesis
    by simp
qed

theorem call_without_open_socket_witness:
  "transportOpen initial = False \<and>
   call ''turn/start'' AwaitSendMessage 5 initial =
     (RejectedNow (SocketNotOpen ''turn/start''),
      initial\<lparr>msgIdCounter := 2, allocated := [1],
              settled := [(1, Rejected (SocketNotOpen ''turn/start''))]\<rparr>) \<and>
   pendingRef (snd (call ''turn/start'' AwaitSendMessage 5 initial)) = [] \<and>
   timers (snd (call ''turn/start'' AwaitSendMessage 5 initial)) = []"
proof -
  have h: "\<not> transportOpen initial"
    by (simp add: transportOpen_def current_def initial_def)
  show ?thesis
    using call_without_open_socket[OF h, of "''turn/start''" AwaitSendMessage 5] h
    by (simp add: initial_def)
qed

section \<open>What each building block of the dispatcher leaves unchanged\<close>

lemma current_cong:
  "wsRef s = wsRef t \<Longrightarrow> sockets s = sockets t \<Longrightarrow> current s = current t"
  by (simp add: current_def split: option.splits)

lemma transportOpen_cong:
  "wsRef s = wsRef t \<Longrightarrow> sockets s = sockets t \<Longrightarrow> transportOpen s = transportOpen t"
  using current_cong[of s t] by (simp add: transportOpen_def)

lemma rawSend_closed: "\<not> transportOpen s \<Longrightarrow> rawSend i m s = (False, s)"
  by (auto simp: rawSend_def transportOpen_def split: option.splits)

lemma rawSend_open:
  "transportOpen s \<Longrightarrow> rawSend i m s = (True, s\<lparr>sent := sent s @ [(the (wsRef s), i, m)]\<rparr>)"
  by (auto simp: rawSend_def transportOpen_def current_def split: option.splits if_splits)

lemma resume_only_sessions:
  "resume k out st = st\<lparr>sessions := sessions (resume k out st)\<rparr>"
  by (induction k out st rule: resume.induct) simp_all

lemma call_closed:
  assumes "\<not> transportOpen st"
  shows "call m k now st =
           (RejectedNow (SocketNotOpen m),
            st\<lparr>msgIdCounter := msgIdCounter st + 1,
               allocated := allocated st @ [msgIdCounter st],
               settled := settled st @ [(msgIdCounter st, Rejected (SocketNotOpen m))]\<rparr>)"
proof -
  have "\<not> transportOpen (snd (nextId st))"
    using assms transportOpen_cong[of "snd (nextId st)" st] by (simp add: nextId_def)
  then show ?thesis
    by (simp add: call_def nextId_def rawSend_closed)
qed

lemma call_open:
  assumes "transportOpen st"
  shows "call m k now st =
           (Registered (msgIdCounter st),
            st\<lparr>msgIdCounter := msgIdCounter st + 1,
               allocated := allocated st @ [msgIdCounter st],
               sent := sent st @ [(the (wsRef st), msgIdCounter st, m)],
               pendingRef :=
                 AList.update (msgIdCounter st)
                   \<lparr>method_name = m, completion = CallPromise k, startedAt = now\<rparr>
                   (pendingRef st),
               timers :=
                 AList.update (msgIdCounter st)
                   \<lparr>callback = CallTimeout m now k, duration = CALL_TIMEOUT_MS\<rparr>
                   (timers st)\<rparr>)"
proof -
  have "transportOpen (snd (nextId st))"
    using assms transportOpen_cong[of "snd (nextId st)" st] by (simp add: nextId_def)
  then show ?thesis
    by (simp add: call_def nextId_def rawSend_open)
qed

section \<open>Session operations\<close>

text \<open>
  Claim C8: \<^verbatim>\<open>sendMessage\<close> appends the user message to every session with the target
  thread id, records the content as \<^verbatim>\<open>lastBlockedContent\<close> and clears the denial flags,
  whether or not the \<^verbatim>\<open>turn/start\<close> call can be sent: with the transport open the call is
  registered as pending, otherwise it is rejected at once, and the session store is the
  updated one in both cases. When the call fails later, nothing is rolled back: rejecting
  the pending record of a \<^verbatim>\<open>sendMessage\<close> call (an error response, a closed connection)
  and the firing of its timeout leave the session store as it is.
\<close>

theorem send_message_keeps_optimistic_update:
  assumes "completion p = CallPromise AwaitSendMessage"
    and "upd = (\<lambda>s. if thread_id s \<noteq> tid then s
                 else s\<lparr>messages := messages s @
                           [\<lparr>msg_id = ''user-'' @ show_nat now, role = user, content = body,
                             items = None, streamingText = None, isStreaming = None\<rparr>],
                         lastBlockedContent := Some body,
                         hasPermissionDenial := Some False,
                         permissionDenials := None\<rparr>)"
  shows "sendMessage tid body model now st =
           awaitCall ''turn/start'' AwaitSendMessage now (st\<lparr>sessions := map upd (sessions st)\<rparr>) \<and>
         sessions (sendMessage tid body model now st) = map upd (sessions st) \<and>
         (if transportOpen st
          then map_of (pendingRef (sendMessage tid body model now st)) (msgIdCounter st) =
                 Some \<lparr>method_name = ''turn/start'', completion = CallPromise AwaitSendMessage,
                       startedAt = now\<rparr>
          else settled (sendMessage tid body model now st) =
                 settled st @ [(msgIdCounter st, Rejected (SocketNotOpen ''turn/start''))]) \<and>
         sessions (entryReject i p e s) = sessions s \<and>
         (map_of (pendingRef s) i = Some p \<longrightarrow>
            sessions (step (SocketMessage h (Response (NumId i) (ErrorReply x))) s) = sessions s) \<and>
         (map_of (timers s) i = Some \<lparr>callback = CallTimeout m t AwaitSendMessage, duration = d\<rparr> \<longrightarrow>
            sessions (step (TimerFired i now') s) = sessions s)"
proof -
  let ?st = "st\<lparr>sessions := map upd (sessions st)\<rparr>"
  have sm: "sendMessage tid body model now st = awaitCall ''turn/start'' AwaitSendMessage now ?st"
    by (simp add: sendMessage_def assms(2))
  have op: "transportOpen ?st = transportOpen st"
    by (rule transportOpen_cong) simp_all
  have a: "sessions (sendMessage tid body model now st) = map upd (sessions st)"
    unfolding sm awaitCall_def
    by (cases "transportOpen st") (simp_all add: call_open call_closed op)
  have b: "map_of (pendingRef (sendMessage tid body model now st)) (msgIdCounter st) =
             Some \<lparr>method_name = ''turn/start'', completion = CallPromise AwaitSendMessage,
                   startedAt = now\<rparr>" if "transportOpen st"
    unfolding sm awaitCall_def using that by (simp add: call_open op update_conv')
  have c: "settled (sendMessage tid body model now st) =
             settled st @ [(msgIdCounter st, Rejected (SocketNotOpen ''turn/start''))]"
    if "\<not> transportOpen st"
    unfolding sm awaitCall_def using that by (simp add: call_closed op)
  have d: "sessions (entryReject i p e s) = sessions s" for s e
    using assms(1) by (simp add: entryReject_def settlePromise_def clearTimeout_def)
  have e: "sessions (step (SocketMessage h (Response (NumId i) (ErrorReply x))) s) = sessions s"
    if "map_of (pendingRef s) i = Some p"
    using that d by (simp add: onmessage_def)
  have f: "sessions (step (TimerFired i now') s) = sessions s"
    if "map_of (timers s) i = Some \<lparr>callback = CallTimeout m t AwaitSendMessage, duration = d\<rparr>"
    using that by (simp add: fireTimer_def settlePromise_def clearTimeout_def Let_def)
  have g: "(if transportOpen st
            then map_of (pendingRef (sendMessage tid body model now st)) (msgIdCounter st) =
                   Some \<lparr>method_name = ''turn/start'', completion = CallPromise AwaitSendMessage,
                         startedAt = now\<rparr>
            else settled (sendMessage tid body model now st) =
                   settled st @ [(msgIdCounter st, Rejected (SocketNotOpen ''turn/start''))])"
    using b c by simp
  show ?thesis
    using sm a g d e f by blast
qed

theorem send_message_keeps_optimistic_update_witness:
  "sessions (sendMessage ''t1'' ''hi'' None 12
     (run [Connect ''ws://a'', SocketOpened 0 5, CreateSession ''/w'' default_mode 2,
           SocketMessage 0 (Response (NumId 2) (ResultReply (ThreadStartResult ''t1'' 3))),
           SocketClosed 0 1006 []] initial)) =
     [\<lparr>thread_id = ''t1'', created_at = 3, cwd = ''/w'', permission_mode = default_mode,
       turns = [], active_turn_id = None,
       messages = [\<lparr>msg_id = ''user-12'', role = user, content = ''hi'', items = None,
                    streamingText = None, isStreaming = None\<rparr>],
       lastBlockedContent = Some ''hi'', hasPermissionDenial = Some False,
       permissionDenials = None\<rparr>] \<and>
   settled (sendMessage ''t1'' ''hi'' None 12
     (run [Connect ''ws://a'', SocketOpened 0 5, CreateSession ''/w'' default_mode 2,
           SocketMessage 0 (Response (NumId 2) (ResultReply (ThreadStartResult ''t1'' 3))),
           SocketClosed 0 1006 []] initial)) =
     [(2, Resolved (ThreadStartResult ''t1'' 3)),
      (3, Rejected (SocketNotOpen ''turn/start''))]"
proof -
  let ?st = "run [Connect ''ws://a'', SocketOpened 0 5, CreateSession ''/w'' default_mode 2,
           SocketMessage 0 (Response (NumId 2) (ResultReply (ThreadStartResult ''t1'' 3))),
           SocketClosed 0 1006 []] initial"
  let ?p = "\<lparr>method_name = ''turn/start'', completion = CallPromise AwaitSendMessage,
             startedAt = 12\<rparr>"
  have p: "completion ?p = CallPromise AwaitSendMessage"
    by simp
  have st: "sessions ?st =
      [\<lparr>thread_id = ''t1'', created_at = 3, cwd = ''/w'', permission_mode = default_mode,
        turns = [], active_turn_id = None, messages = [], lastBlockedContent = None,
        hasPermissionDenial = None, permissionDenials = None\<rparr>]"
    "settled ?st = [(2, Resolved (ThreadStartResult ''t1'' 3))]"
    "msgIdCounter ?st = 3" "\<not> transportOpen ?st"
    by (simp_all add: hook_defs)
  note w = send_message_keeps_optimistic_update
      [where tid = "''t1''" and now = 12 and body = "''hi''" and model = None and st = ?st,
       OF p refl]
  note updated = w[THEN conjunct2, THEN conjunct1]
  note rejected = w[THEN conjunct2, THEN conjunct2, THEN conjunct1]
  show ?thesis
    using updated rejected by (simp add: st show_nat_12)
qed

text \<open>
  Claim C9: \<^verbatim>\<open>approvePermission\<close> sets \<^verbatim>\<open>permission_mode\<close> (to the given mode, or to
  \<^verbatim>\<open>acceptEdits\<close> when none is given) and clears \<^verbatim>\<open>hasPermissionDenial\<close> and
  \<^verbatim>\<open>permissionDenials\<close> on every session with the thread id, whatever the outcome of the
  \<^verbatim>\<open>approval/respond\<close> call: at once when the call cannot be sent, and otherwise when its
  pending record is resolved, is rejected, or times out. The update changes no other
  field of a session: thread id, creation time, working directory, turns, active turn,
  messages and \<^verbatim>\<open>lastBlockedContent\<close> are as before.
\<close>

theorem approve_permission_frame:
  assumes "completion p = CallPromise (AwaitApprovePermission tid mode)"
    and "upd = (\<lambda>s. if thread_id s = tid
                 then s\<lparr>permission_mode := (case mode of None \<Rightarrow> acceptEdits | Some m \<Rightarrow> m),
                        hasPermissionDenial := Some False,
                        permissionDenials := None\<rparr>
                 else s)"
  shows "(if transportOpen st
          then sessions (approvePermission tid mode now st) = sessions st \<and>
               map_of (pendingRef (approvePermission tid mode now st)) (msgIdCounter st) =
                 Some \<lparr>method_name = ''approval/respond'',
                       completion = CallPromise (AwaitApprovePermission tid mode),
                       startedAt = now\<rparr>
          else sessions (approvePermission tid mode now st) = map upd (sessions st)) \<and>
         sessions (entryResolve i p v s) = map upd (sessions s) \<and>
         sessions (entryReject i p e s) = map upd (sessions s) \<and>
         (map_of (timers s) i =
            Some \<lparr>callback = CallTimeout m t (AwaitApprovePermission tid mode), duration = d\<rparr> \<and>
          map_of (pendingRef s) i \<noteq> None \<longrightarrow>
            sessions (step (TimerFired i now') s) = map upd (sessions s)) \<and>
         thread_id (upd x) = thread_id x \<and> created_at (upd x) = created_at x \<and>
         cwd (upd x) = cwd x \<and> turns (upd x) = turns x \<and>
         active_turn_id (upd x) = active_turn_id x \<and> messages (upd x) = messages x \<and>
         lastBlockedContent (upd x) = lastBlockedContent x"
proof -
  have n: "nullish mode acceptEdits = (case mode of None \<Rightarrow> acceptEdits | Some m \<Rightarrow> m)"
    by (cases mode) simp_all
  have r: "sessions (resume (AwaitApprovePermission tid mode) out s) = map upd (sessions s)"
    for out s
    by (simp add: updateSession_def assms(2) n)
  have a: "sessions (approvePermission tid mode now st) = sessions st \<and>
           map_of (pendingRef (approvePermission tid mode now st)) (msgIdCounter st) =
             Some \<lparr>method_name = ''approval/respond'',
                   completion = CallPromise (AwaitApprovePermission tid mode),
                   startedAt = now\<rparr>" if "transportOpen st"
    using that by (simp add: approvePermission_def awaitCall_def call_open update_conv')
  have b: "sessions (approvePermission tid mode now st) = map upd (sessions st)"
    if "\<not> transportOpen st"
    using that r by (simp add: approvePermission_def awaitCall_def call_closed)
  have c: "sessions (entryResolve i p v s) = map upd (sessions s)"
    using assms(1) r by (simp add: entryResolve_def settlePromise_def clearTimeout_def)
  have d: "sessions (entryReject i p e s) = map upd (sessions s)"
    using assms(1) r by (simp add: entryReject_def settlePromise_def clearTimeout_def)
  have e: "sessions (step (TimerFired i now') s) = map upd (sessions s)"
    if "map_of (timers s) i =
          Some \<lparr>callback = CallTimeout m t (AwaitApprovePermission tid mode), duration = d\<rparr>"
      and "map_of (pendingRef s) i \<noteq> None"
    using that r by (auto simp: fireTimer_def settlePromise_def clearTimeout_def Let_def)
  have f: "thread_id (upd x) = thread_id x \<and> created_at (upd x) = created_at x \<and>
           cwd (upd x) = cwd x \<and> turns (upd x) = turns x \<and>
           active_turn_id (upd x) = active_turn_id x \<and> messages (upd x) = messages x \<and>
           lastBlockedContent (upd x) = lastBlockedContent x"
    by (simp add: assms(2))
  show ?thesis
    using a b c d e f by simp
qed

theorem approve_permission_frame_witness:
  "sessions (approvePermission ''t1'' (Some acceptEdits) 20
     (run [Connect ''ws://a'', SocketOpened 0 5, CreateSession ''/w'' default_mode 2,
           SocketMessage 0 (Response (NumId 2) (ResultReply (ThreadStartResult ''t1'' 3))),
           SendMessage ''t1'' ''hi'' None 12,
           SocketMessage 0 (Notification (TurnPermissionDenied ''t1''
             [\<lparr>tool_name = ''Bash'', tool_use_id = ''x'', tool_input = Some ''rm''\<rparr>])),
           SocketClosed 0 1006 []] initial)) =
     [\<lparr>thread_id = ''t1'', created_at = 3, cwd = ''/w'', permission_mode = acceptEdits,
       turns = [], active_turn_id = None,
       messages = [\<lparr>msg_id = ''user-12'', role = user, content = ''hi'', items = None,
                    streamingText = None, isStreaming = None\<rparr>],
       lastBlockedContent = Some ''hi'', hasPermissionDenial = Some False,
       permissionDenials = None\<rparr>]"
proof -
  let ?st = "run [Connect ''ws://a'', SocketOpened 0 5, CreateSession ''/w'' default_mode 2,
           SocketMessage 0 (Response (NumId 2) (ResultReply (ThreadStartResult ''t1'' 3))),
           SendMessage ''t1'' ''hi'' None 12,
           SocketMessage 0 (Notification (TurnPermissionDenied ''t1''
             [\<lparr>tool_name = ''Bash'', tool_use_id = ''x'', tool_input = Some ''rm''\<rparr>])),
           SocketClosed 0 1006 []] initial"
  let ?p = "\<lparr>method_name = ''approval/respond'',
             completion = CallPromise (AwaitApprovePermission ''t1'' (Some acceptEdits)),
             startedAt = 20\<rparr>"
  have p: "completion ?p = CallPromise (AwaitApprovePermission ''t1'' (Some acceptEdits))"
    by simp
  have st: "sessions ?st =
      [\<lparr>thread_id = ''t1'', created_at = 3, cwd = ''/w'', permission_mode = default_mode,
        turns = [], active_turn_id = None,
        messages = [\<lparr>msg_id = ''user-12'', role = user, content = ''hi'', items = None,
                     streamingText = None, isStreaming = None\<rparr>],
        lastBlockedContent = Some ''hi'', hasPermissionDenial = Some True,
        permissionDenials =
          Some [\<lparr>tool_name = ''Bash'', tool_use_id = ''x'', tool_input = Some ''rm''\<rparr>]\<rparr>]"
    "\<not> transportOpen ?st"
    by (simp_all add: hook_defs recordDenial_def show_nat_12)
  show ?thesis
    using approve_permission_frame
      [where tid = "''t1''" and mode = "Some acceptEdits" and now = 20 and st = ?st,
       OF p refl]
    by (simp add: st)
qed

section \<open>The invariant is kept by every event\<close>

lemma update_fresh: "k \<notin> fst ` set al \<Longrightarrow> AList.update k v al = al @ [(k, v)]"
  by (induction al) auto

lemma delete_member: "(j, q) \<in> set (AList.delete k al) \<longleftrightarrow> (j, q) \<in> set al \<and> j \<noteq> k"
  by (auto simp: AList.delete_eq)

lemma delete_absent: "k \<notin> fst ` set al \<Longrightarrow> AList.delete k al = al"
  by (induction al) (auto simp: AList.delete_eq)

lemma distinct_keys_delete: "distinct (map fst al) \<Longrightarrow> distinct (map fst (AList.delete k al))"
  by (simp add: delete_keys distinct_removeAll)

lemma map_of_delete_other: "j \<noteq> k \<Longrightarrow> map_of (AList.delete k al) j = map_of al j"
  by (simp add: delete_conv')

lemma inv_D:
  assumes "dispatcher_inv st"
  shows "distinct (map fst (pendingRef st))"
    and "distinct (map fst (settled st))"
    and "\<And>j q. (j, q) \<in> set (pendingRef st) \<Longrightarrow> j < msgIdCounter st"
    and "\<And>j out. (j, out) \<in> set (settled st) \<Longrightarrow> j < msgIdCounter st"
    and "\<And>j q out. (j, q) \<in> set (pendingRef st) \<Longrightarrow> (j, out) \<in> set (settled st) \<Longrightarrow> False"
    and "\<And>j q. (j, q) \<in> set (pendingRef st) \<Longrightarrow> map_of (timers st) j = Some (timerOf q)"
    and "sorted_wrt (<) (allocated st)"
    and "\<And>j. j \<in> set (allocated st) \<Longrightarrow> j < msgIdCounter st"
proof -
  show "distinct (map fst (pendingRef st))" "distinct (map fst (settled st))"
    "sorted_wrt (<) (allocated st)"
    using assms by (simp_all add: dispatcher_inv_def)
  show "j < msgIdCounter st" if "j \<in> set (allocated st)" for j
    using assms that by (simp add: dispatcher_inv_def)
  have keyP: "j \<in> fst ` set (pendingRef st)" if "(j, q) \<in> set (pendingRef st)" for j q
    using image_eqI[of j fst "(j, q)" "set (pendingRef st)"] that by simp
  have keyS: "j \<in> fst ` set (settled st)" if "(j, out) \<in> set (settled st)" for j out
    using image_eqI[of j fst "(j, out)" "set (settled st)"] that by simp
  have bP: "\<forall>i\<in>fst ` set (pendingRef st). i < msgIdCounter st"
    and bS: "\<forall>i\<in>fst ` set (settled st). i < msgIdCounter st"
    and dis: "fst ` set (pendingRef st) \<inter> fst ` set (settled st) = {}"
    and tm: "\<forall>x\<in>set (pendingRef st). map_of (timers st) (fst x) = Some (timerOf (snd x))"
    using assms unfolding dispatcher_inv_def by blast+
  show "j < msgIdCounter st" if "(j, q) \<in> set (pendingRef st)" for j q
    using bP keyP[OF that] by blast
  show "j < msgIdCounter st" if "(j, out) \<in> set (settled st)" for j out
    using bS keyS[OF that] by blast
  show False if "(j, q) \<in> set (pendingRef st)" "(j, out) \<in> set (settled st)" for j q out
    using dis keyP[OF that(1)] keyS[OF that(2)] by blast
  show "map_of (timers st) j = Some (timerOf q)" if "(j, q) \<in> set (pendingRef st)" for j q
    using tm that by fastforce
qed

lemma inv_I:
  assumes "distinct (map fst (pendingRef st))"
    and "distinct (map fst (settled st))"
    and "\<And>j q. (j, q) \<in> set (pendingRef st) \<Longrightarrow> j < msgIdCounter st"
    and "\<And>j out. (j, out) \<in> set (settled st) \<Longrightarrow> j < msgIdCounter st"
    and "\<And>j q out. (j, q) \<in> set (pendingRef st) \<Longrightarrow> (j, out) \<in> set (settled st) \<Longrightarrow> False"
    and "\<And>j q. (j, q) \<in> set (pendingRef st) \<Longrightarrow> map_of (timers st) j = Some (timerOf q)"
    and "sorted_wrt (<) (allocated st)"
    and "\<And>j. j \<in> set (allocated st) \<Longrightarrow> j < msgIdCounter st"
  shows "dispatcher_inv st"
proof -
  have "\<forall>i\<in>fst ` set (pendingRef st). i < msgIdCounter st"
    using assms(3) by auto
  moreover have "\<forall>i\<in>fst ` set (settled st). i < msgIdCounter st"
    using assms(4) by auto
  moreover have "fst ` set (pendingRef st) \<inter> fst ` set (settled st) = {}"
    using assms(5) by auto
  moreover have "\<forall>x\<in>set (pendingRef st). map_of (timers st) (fst x) = Some (timerOf (snd x))"
    using assms(6) by auto
  ultimately show ?thesis
    unfolding dispatcher_inv_def using assms(1,2,7,8) by blast
qed

lemma inv_same:
  assumes "dispatcher_inv st"
    and "msgIdCounter st' = msgIdCounter st" and "allocated st' = allocated st"
    and "pendingRef st' = pendingRef st" and "timers st' = timers st"
    and "settled st' = settled st"
  shows "dispatcher_inv st'"
  using assms by (simp add: dispatcher_inv_def)

lemma inv_register:
  assumes "dispatcher_inv st"
    and "msgIdCounter st' = msgIdCounter st + 1"
    and "allocated st' = allocated st @ [msgIdCounter st]"
    and "pendingRef st' = AList.update (msgIdCounter st) p (pendingRef st)"
    and "timers st' = AList.update (msgIdCounter st) (timerOf p) (timers st)"
    and "settled st' = settled st"
  shows "dispatcher_inv st'"
proof -
  note d = inv_D[OF assms(1)]
  let ?c = "msgIdCounter st"
  have fresh: "?c \<notin> fst ` set (pendingRef st)"
    using d(3) by force
  have P: "pendingRef st' = pendingRef st @ [(?c, p)]"
    using assms(4) fresh by (simp add: update_fresh)
  have T: "map_of (timers st') = (map_of (timers st))(?c \<mapsto> timerOf p)"
    using assms(5) by (simp add: update_conv')
  show ?thesis
  proof (rule inv_I)
    show "distinct (map fst (pendingRef st'))"
      using d(1) fresh by (simp add: P)
    show "distinct (map fst (settled st'))"
      using d(2) by (simp add: assms(6))
    show "j < msgIdCounter st'" if "(j, q) \<in> set (pendingRef st')" for j q
      using that d(3)[of j q] by (auto simp: P assms(2))
    show "j < msgIdCounter st'" if "(j, out) \<in> set (settled st')" for j out
      using that d(4)[of j out] by (auto simp: assms(2,6))
    show False if "(j, q) \<in> set (pendingRef st')" "(j, out) \<in> set (settled st')" for j q out
      using that d(5)[of j q out] d(4)[of j out] by (auto simp: P assms(6))
    show "map_of (timers st') j = Some (timerOf q)" if "(j, q) \<in> set (pendingRef st')" for j q
      using that d(6)[of j q] d(3)[of j q] by (auto simp: P T)
    show "sorted_wrt (<) (allocated st')"
      using d(7) d(8) by (auto simp: assms(3) sorted_wrt_append)
    show "j < msgIdCounter st'" if "j \<in> set (allocated st')" for j
      using that d(8)[of j] by (auto simp: assms(2,3))
  qed
qed

lemma inv_reject_now:
  assumes "dispatcher_inv st"
    and "msgIdCounter st' = msgIdCounter st + 1"
    and "allocated st' = allocated st @ [msgIdCounter st]"
    and "pendingRef st' = pendingRef st" and "timers st' = timers st"
    and "settled st' = settled st @ [(msgIdCounter st, out)]"
  shows "dispatcher_inv st'"
proof -
  note d = inv_D[OF assms(1)]
  have fresh: "msgIdCounter st \<notin> fst ` set (settled st)"
    using d(4) by force
  show ?thesis
  proof (rule inv_I)
    show "distinct (map fst (pendingRef st'))"
      using d(1) by (simp add: assms(4))
    show "distinct (map fst (settled st'))"
      using d(2) fresh by (simp add: assms(6))
    show "j < msgIdCounter st'" if "(j, q) \<in> set (pendingRef st')" for j q
      using that d(3)[of j q] by (auto simp: assms(2,4))
    show "j < msgIdCounter st'" if "(j, out') \<in> set (settled st')" for j out'
      using that d(4)[of j out'] by (auto simp: assms(2,6))
    show False if "(j, q) \<in> set (pendingRef st')" "(j, out') \<in> set (settled st')" for j q out'
      using that d(5)[of j q out'] d(3)[of j q] by (auto simp: assms(4,6))
    show "map_of (timers st') j = Some (timerOf q)" if "(j, q) \<in> set (pendingRef st')" for j q
      using that d(6)[of j q] by (simp add: assms(4,5))
    show "sorted_wrt (<) (allocated st')"
      using d(7) d(8) by (auto simp: assms(3) sorted_wrt_append)
    show "j < msgIdCounter st'" if "j \<in> set (allocated st')" for j
      using that d(8)[of j] by (auto simp: assms(2,3))
  qed
qed

lemma inv_drop:
  assumes "dispatcher_inv st"
    and "msgIdCounter st' = msgIdCounter st" and "allocated st' = allocated st"
    and "pendingRef st' = AList.delete i (pendingRef st)"
    and "timers st' = AList.delete i (timers st)"
    and "settled st' = settled st \<or>
         (i \<in> fst ` set (pendingRef st) \<and> settled st' = settled st @ [(i, out)])"
  shows "dispatcher_inv st'"
proof -
  note d = inv_D[OF assms(1)]
  have pend: "(j, q) \<in> set (pendingRef st) \<and> j \<noteq> i" if "(j, q) \<in> set (pendingRef st')" for j q
    using that unfolding assms(4) delete_member by simp
  have sett: "distinct (map fst (settled st')) \<and>
              (\<forall>j out'. (j, out') \<in> set (settled st') \<longrightarrow>
                 j < msgIdCounter st \<and> ((j, out') \<in> set (settled st) \<or> j = i))"
    using assms(6)
  proof
    assume "settled st' = settled st"
    then show ?thesis
      using d(2) d(4) by simp
  next
    assume a: "i \<in> fst ` set (pendingRef st) \<and> settled st' = settled st @ [(i, out)]"
    then obtain q where q: "(i, q) \<in> set (pendingRef st)"
      by auto
    have "i \<notin> fst ` set (settled st)"
    proof
      assume "i \<in> fst ` set (settled st)"
      then obtain out' where "(i, out') \<in> set (settled st)"
        by auto
      then show False
        using d(5)[OF q] by blast
    qed
    then have "distinct (map fst (settled st'))"
      using a d(2) by simp
    moreover have "j < msgIdCounter st \<and> ((j, out') \<in> set (settled st) \<or> j = i)"
      if "(j, out') \<in> set (settled st')" for j out'
    proof -
      have "(j, out') \<in> set (settled st) \<or> j = i"
        using that a by auto
      then show ?thesis
        using d(4)[of j out'] d(3)[OF q] by blast
    qed
    ultimately show ?thesis
      by blast
  qed
  show ?thesis
  proof (rule inv_I)
    show "distinct (map fst (pendingRef st'))"
      using d(1) by (simp add: assms(4) distinct_keys_delete)
    show "distinct (map fst (settled st'))"
      using sett by simp
    show "j < msgIdCounter st'" if "(j, q) \<in> set (pendingRef st')" for j q
      using pend[OF that] d(3)[of j q] by (simp add: assms(2))
    show "j < msgIdCounter st'" if "(j, out') \<in> set (settled st')" for j out'
      using sett that unfolding assms(2) by blast
    show False if "(j, q) \<in> set (pendingRef st')" "(j, out') \<in> set (settled st')" for j q out'
    proof -
      have "(j, out') \<in> set (settled st)"
        using sett that(2) pend[OF that(1)] by blast
      then show False
        using d(5)[of j q out'] pend[OF that(1)] by blast
    qed
    show "map_of (timers st') j = Some (timerOf q)" if "(j, q) \<in> set (pendingRef st')" for j q
      using pend[OF that] d(6)[of j q] by (simp add: assms(5) map_of_delete_other)
    show "sorted_wrt (<) (allocated st')"
      using d(7) by (simp add: assms(3))
    show "j < msgIdCounter st'" if "j \<in> set (allocated st')" for j
      using that d(8)[of j] by (simp add: assms(2,3))
  qed
qed

lemma inv_reject_all:
  assumes "dispatcher_inv st"
    and "msgIdCounter st' = msgIdCounter st" and "allocated st' = allocated st"
    and "pendingRef st' = []"
    and "settled st' = settled st @ map (\<lambda>x. (fst x, out)) (filter P (pendingRef st))"
  shows "dispatcher_inv st'"
proof -
  note d = inv_D[OF assms(1)]
  let ?new = "map (\<lambda>x. (fst x, out)) (filter P (pendingRef st))"
  have keys: "map fst ?new = map fst (filter P (pendingRef st))"
    by (simp add: comp_def)
  have sub: "set (map fst ?new) \<subseteq> fst ` set (pendingRef st)"
    unfolding keys by auto
  have dn: "distinct (map fst ?new)"
    unfolding keys using d(1) by (simp add: distinct_map_filter)
  have disj: "set (map fst (settled st)) \<inter> set (map fst ?new) = {}"
  proof (rule ccontr)
    assume "set (map fst (settled st)) \<inter> set (map fst ?new) \<noteq> {}"
    then obtain j where j: "j \<in> set (map fst (settled st))" "j \<in> set (map fst ?new)"
      by blast
    obtain out' where "(j, out') \<in> set (settled st)"
      using j(1) by auto
    moreover obtain q where "(j, q) \<in> set (pendingRef st)"
      using j(2) sub by fastforce
    ultimately show False
      using d(5) by blast
  qed
  show ?thesis
  proof (rule inv_I)
    show "distinct (map fst (pendingRef st'))"
      by (simp add: assms(4))
    show "distinct (map fst (settled st'))"
      unfolding assms(5) map_append distinct_append using d(2) dn disj by blast
    show "j < msgIdCounter st'" if "(j, q) \<in> set (pendingRef st')" for j q
      using that by (simp add: assms(4))
    show "j < msgIdCounter st'" if "(j, out') \<in> set (settled st')" for j out'
    proof -
      have "(j, out') \<in> set (settled st) \<or> (\<exists>q. (j, q) \<in> set (pendingRef st))"
        using that unfolding assms(5) by auto
      then show ?thesis
        using d(4)[of j out'] d(3)[of j] unfolding assms(2) by blast
    qed
    show False if "(j, q) \<in> set (pendingRef st')" "(j, out') \<in> set (settled st')" for j q out'
      using that by (simp add: assms(4))
    show "map_of (timers st') j = Some (timerOf q)" if "(j, q) \<in> set (pendingRef st')" for j q
      using that by (simp add: assms(4))
    show "sorted_wrt (<) (allocated st')"
      using d(7) by (simp add: assms(3))
    show "j < msgIdCounter st'" if "j \<in> set (allocated st')" for j
      using that d(8)[of j] by (simp add: assms(2,3))
  qed
qed

section \<open>The effect of each operation on the fields of the dispatcher\<close>

lemma resume_fields [simp]:
  "msgIdCounter (resume k out st) = msgIdCounter st"
  "allocated (resume k out st) = allocated st"
  "pendingRef (resume k out st) = pendingRef st"
  "timers (resume k out st) = timers st"
  "settled (resume k out st) = settled st"
  "wsRef (resume k out st) = wsRef st"
  "sockets (resume k out st) = sockets st"
  by (induction k out st rule: resume.induct; simp)+

lemma entryReject_fields:
  "msgIdCounter (entryReject i p e st) = msgIdCounter st"
  "allocated (entryReject i p e st) = allocated st"
  "pendingRef (entryReject i p e st) = pendingRef st"
  "timers (entryReject i p e st) = AList.delete i (timers st)"
  "settled (entryReject i p e st) =
     (case completion p of CallPromise k \<Rightarrow> settled st @ [(i, Rejected e)]
                         | Handshake \<Rightarrow> settled st)"
  "wsRef (entryReject i p e st) = wsRef st"
  "sockets (entryReject i p e st) = sockets st"
  by (cases "completion p"; simp add: entryReject_def settlePromise_def clearTimeout_def)+

lemma entryResolve_fields:
  "msgIdCounter (entryResolve i p v st) = msgIdCounter st"
  "allocated (entryResolve i p v st) = allocated st"
  "pendingRef (entryResolve i p v st) = pendingRef st"
  "timers (entryResolve i p v st) = AList.delete i (timers st)"
  "settled (entryResolve i p v st) =
     (case completion p of CallPromise k \<Rightarrow> settled st @ [(i, Resolved v)]
                         | Handshake \<Rightarrow> settled st)"
  "wsRef (entryResolve i p v st) = wsRef st"
  "sockets (entryResolve i p v st) = sockets st"
  by (cases "completion p"; simp add: entryResolve_def settlePromise_def clearTimeout_def)+

lemma fold_entryReject:
  "msgIdCounter (fold (\<lambda>(i, p). entryReject i p r) ps st) = msgIdCounter st \<and>
   allocated (fold (\<lambda>(i, p). entryReject i p r) ps st) = allocated st \<and>
   pendingRef (fold (\<lambda>(i, p). entryReject i p r) ps st) = pendingRef st \<and>
   wsRef (fold (\<lambda>(i, p). entryReject i p r) ps st) = wsRef st \<and>
   sockets (fold (\<lambda>(i, p). entryReject i p r) ps st) = sockets st \<and>
   settled (fold (\<lambda>(i, p). entryReject i p r) ps st) =
     settled st @ map (\<lambda>x. (fst x, Rejected r))
                    (filter (\<lambda>x. completion (snd x) \<noteq> Handshake) ps)"
proof (induction ps arbitrary: st)
  case Nil
  then show ?case by simp
next
  case (Cons x ps)
  obtain i p where x: "x = (i, p)"
    by (cases x)
  show ?case
    unfolding x using Cons[of "entryReject i p r st"]
    by (cases "completion p") (simp_all add: entryReject_fields)
qed

lemma rejectAllPending_fields:
  "msgIdCounter (rejectAllPending r st) = msgIdCounter st"
  "allocated (rejectAllPending r st) = allocated st"
  "pendingRef (rejectAllPending r st) = []"
  "wsRef (rejectAllPending r st) = wsRef st"
  "sockets (rejectAllPending r st) = sockets st"
  "settled (rejectAllPending r st) =
     settled st @ map (\<lambda>x. (fst x, Rejected r))
                    (filter (\<lambda>x. completion (snd x) \<noteq> Handshake) (pendingRef st))"
  using fold_entryReject[of r "pendingRef st" st]
  by (simp_all add: rejectAllPending_def)

lemma awaitCall_open:
  assumes "transportOpen st"
  shows "awaitCall m k now st =
            st\<lparr>msgIdCounter := msgIdCounter st + 1,
               allocated := allocated st @ [msgIdCounter st],
               sent := sent st @ [(the (wsRef st), msgIdCounter st, m)],
               pendingRef :=
                 AList.update (msgIdCounter st)
                   \<lparr>method_name = m, completion = CallPromise k, startedAt = now\<rparr>
                   (pendingRef st),
               timers :=
                 AList.update (msgIdCounter st)
                   \<lparr>callback = CallTimeout m now k, duration = CALL_TIMEOUT_MS\<rparr>
                   (timers st)\<rparr>"
  using assms by (simp add: awaitCall_def call_open)

lemma awaitCall_closed:
  assumes "\<not> transportOpen st"
  shows "awaitCall m k now st =
           resume k (Rejected (SocketNotOpen m))
            (st\<lparr>msgIdCounter := msgIdCounter st + 1,
               allocated := allocated st @ [msgIdCounter st],
               settled := settled st @ [(msgIdCounter st, Rejected (SocketNotOpen m))]\<rparr>)"
  using assms by (simp add: awaitCall_def call_closed)

lemma inv_sessions [simp]: "dispatcher_inv (st\<lparr>sessions := ss\<rparr>) = dispatcher_inv st"
  by (simp add: dispatcher_inv_def)

lemma inv_awaitCall:
  assumes "dispatcher_inv st"
  shows "dispatcher_inv (awaitCall m k now st)"
proof (cases "transportOpen st")
  case True
  show ?thesis
    by (rule inv_register[OF assms,
          where p = "\<lparr>method_name = m, completion = CallPromise k, startedAt = now\<rparr>"])
       (simp_all add: awaitCall_open[OF True] timerOf_def)
next
  case False
  show ?thesis
    by (rule inv_reject_now[OF assms, where out = "Rejected (SocketNotOpen m)"])
       (simp_all add: awaitCall_closed[OF False])
qed

lemma inv_onopen:
  assumes "dispatcher_inv st"
  shows "dispatcher_inv (onopen h now st)"
proof (cases "wsRef st = Some h")
  case True
  show ?thesis
    by (rule inv_register[OF assms,
          where p = "\<lparr>method_name = ''initialize'', completion = Handshake, startedAt = now\<rparr>"])
       (simp_all add: onopen_def nextId_def True timerOf_def)
next
  case False
  then show ?thesis
    using assms by (simp add: onopen_def)
qed

lemma inv_onmessage:
  assumes "dispatcher_inv st"
  shows "dispatcher_inv (onmessage h f st)"
proof (cases "wsRef st = Some h")
  case False
  then show ?thesis
    using assms by (simp add: onmessage_def)
next
  case True
  show ?thesis
  proof (cases f)
    case (Response idv r)
    show ?thesis
    proof (cases idv)
      case OtherId
      then show ?thesis
        using assms True Response by (simp add: onmessage_def)
    next
      case (NumId i)
      show ?thesis
      proof (cases "map_of (pendingRef st) i")
        case None
        then show ?thesis
          using assms True Response NumId by (simp add: onmessage_def)
      next
        case (Some p)
        have mem: "i \<in> fst ` set (pendingRef st)"
          using map_of_SomeD[OF Some] by force
        show ?thesis
        proof (cases r)
          case (ErrorReply e)
          have eq: "onmessage h f st =
                      entryReject i p (ServerError e)
                        (st\<lparr>pendingRef := AList.delete i (pendingRef st)\<rparr>)"
            using True Response NumId Some ErrorReply by (simp add: onmessage_def)
          show ?thesis
            unfolding eq
            by (rule inv_drop[OF assms, where i = i and out = "Rejected (ServerError e)"])
               (cases "completion p"; simp add: entryReject_fields mem)+
        next
          case (ResultReply v)
          have eq: "onmessage h f st =
                      entryResolve i p v (st\<lparr>pendingRef := AList.delete i (pendingRef st)\<rparr>)"
            using True Response NumId Some ResultReply by (simp add: onmessage_def)
          show ?thesis
            unfolding eq
            by (rule inv_drop[OF assms, where i = i and out = "Resolved v"])
               (cases "completion p"; simp add: entryResolve_fields mem)+
        qed
      qed
    qed
  qed (use assms True in \<open>simp_all add: onmessage_def\<close>)
qed

lemma inv_fireTimer:
  assumes "dispatcher_inv st"
  shows "dispatcher_inv (fireTimer i now st)"
proof (cases "map_of (timers st) i")
  case None
  then show ?thesis
    using assms by (simp add: fireTimer_def)
next
  case (Some t)
  show ?thesis
  proof (cases "map_of (pendingRef st) i")
    case None
    then have nk: "i \<notin> fst ` set (pendingRef st)"
      by (simp add: map_of_eq_None_iff)
    then have same: "AList.delete i (pendingRef st) = pendingRef st"
      by (rule delete_absent)
    have eq: "fireTimer i now st = clearTimeout i st"
      using Some None by (cases "callback t") (simp_all add: fireTimer_def clearTimeout_def Let_def)
    show ?thesis
      unfolding eq
      by (rule inv_drop[OF assms, where i = i and out = "Rejected (SocketNotOpen [])"])
         (simp_all add: clearTimeout_def same)
  next
    case (Some p)
    have mem: "i \<in> fst ` set (pendingRef st)"
      using map_of_SomeD[OF Some] by force
    show ?thesis
    proof (cases "callback t")
      case (CallTimeout m started k)
      show ?thesis
        by (rule inv_drop[OF assms, where i = i
              and out = "Rejected (RequestTimedOut m (int now - int started))"])
           (simp_all add: fireTimer_def clearTimeout_def settlePromise_def Let_def
              \<open>map_of (timers st) i = Some t\<close> Some CallTimeout mem)
    next
      case InitTimeout
      show ?thesis
        by (rule inv_drop[OF assms, where i = i and out = "Rejected (SocketNotOpen [])"])
           (simp_all add: fireTimer_def clearTimeout_def Let_def
              \<open>map_of (timers st) i = Some t\<close> Some InitTimeout)
    qed
  qed
qed

lemma inv_fields:
  assumes "msgIdCounter st' = msgIdCounter st" and "allocated st' = allocated st"
    and "pendingRef st' = pendingRef st" and "timers st' = timers st"
    and "settled st' = settled st"
  shows "dispatcher_inv st' = dispatcher_inv st"
  using assms by (simp add: dispatcher_inv_def)

lemma onclose_fields:
  "pendingRef (onclose h code reason st) =
     pendingRef (if wsRef st = Some h
                 then rejectAllPending (WebSocketClosed code) (st\<lparr>wsRef := None\<rparr>) else st)"
  "settled (onclose h code reason st) =
     settled (if wsRef st = Some h
              then rejectAllPending (WebSocketClosed code) (st\<lparr>wsRef := None\<rparr>) else st)"
  "timers (onclose h code reason st) =
     timers (if wsRef st = Some h
             then rejectAllPending (WebSocketClosed code) (st\<lparr>wsRef := None\<rparr>) else st)"
  by (simp_all add: onclose_def Let_def)

lemma fold_entryReject_timers:
  "map_of (timers (fold (\<lambda>(i, p). entryReject i p r) ps st)) j =
     (if j \<in> fst ` set ps then None else map_of (timers st) j)"
proof (induction ps arbitrary: st)
  case Nil
  then show ?case by simp
next
  case (Cons x ps)
  obtain i p where x: "x = (i, p)"
    by (cases x)
  show ?case
    unfolding x using Cons[of "entryReject i p r st"]
    by (simp add: entryReject_fields delete_conv')
qed

lemma rejectAllPending_timers:
  assumes "x \<in> set (pendingRef st)"
  shows "map_of (timers (rejectAllPending r st)) (fst x) = None"
proof -
  have "pendingRef st \<noteq> []"
    using assms by auto
  then show ?thesis
    using assms fold_entryReject_timers[of r "pendingRef st" st "fst x"]
    by (simp add: rejectAllPending_def)
qed

lemma inv_onclose:
  assumes "dispatcher_inv st"
  shows "dispatcher_inv (onclose h code reason st)"
proof -
  define st1 where
    "st1 = (if wsRef st = Some h
            then rejectAllPending (WebSocketClosed code) (st\<lparr>wsRef := None\<rparr>) else st)"
  have "dispatcher_inv (st\<lparr>wsRef := None\<rparr>)"
    using assms by (simp add: dispatcher_inv_def)
  then have "dispatcher_inv (rejectAllPending (WebSocketClosed code) (st\<lparr>wsRef := None\<rparr>))"
    by (rule inv_reject_all[where out = "Rejected (WebSocketClosed code)"
          and P = "\<lambda>x. completion (snd x) \<noteq> Handshake"])
       (simp_all add: rejectAllPending_fields)
  then have 1: "dispatcher_inv st1"
    using assms by (simp add: st1_def)
  have "dispatcher_inv (onclose h code reason st) = dispatcher_inv st1"
    by (rule inv_fields) (simp_all add: onclose_def st1_def[symmetric] Let_def)
  then show ?thesis
    using 1 by simp
qed

lemma setReadyState_fields [simp]:
  "msgIdCounter (setReadyState h r st) = msgIdCounter st"
  "allocated (setReadyState h r st) = allocated st"
  "pendingRef (setReadyState h r st) = pendingRef st"
  "timers (setReadyState h r st) = timers st"
  "settled (setReadyState h r st) = settled st"
  "wsRef (setReadyState h r st) = wsRef st"
  "sessions (setReadyState h r st) = sessions st"
  by (simp_all add: setReadyState_def)

lemma closeSocket_fields [simp]:
  "msgIdCounter (closeSocket h st) = msgIdCounter st"
  "allocated (closeSocket h st) = allocated st"
  "pendingRef (closeSocket h st) = pendingRef st"
  "timers (closeSocket h st) = timers st"
  "settled (closeSocket h st) = settled st"
  "wsRef (closeSocket h st) = wsRef st"
  "sessions (closeSocket h st) = sessions st"
  by (simp_all add: closeSocket_def)

lemma connect_fields:
  "msgIdCounter (connect u st) = msgIdCounter st"
  "allocated (connect u st) = allocated st"
  "pendingRef (connect u st) = pendingRef st"
  "timers (connect u st) = timers st"
  "settled (connect u st) = settled st"
  "sessions (connect u st) = sessions st"
  by (simp_all add: connect_def Let_def split: option.splits prod.splits)

lemma disconnect_fields:
  "msgIdCounter (disconnect st) = msgIdCounter st"
  "allocated (disconnect st) = allocated st"
  "pendingRef (disconnect st) = pendingRef st"
  "timers (disconnect st) = timers st"
  "settled (disconnect st) = settled st"
  by (simp_all add: disconnect_def split: option.splits prod.splits)

lemma inv_setReadyState [simp]: "dispatcher_inv (setReadyState h r st) = dispatcher_inv st"
  by (rule inv_fields) simp_all

lemma inv_deleteSession:
  assumes "dispatcher_inv st"
  shows "dispatcher_inv (deleteSession tid now st)"
  using assms inv_awaitCall[OF assms]
  by (simp add: deleteSession_def split: option.splits)

lemma inv_step:
  assumes "dispatcher_inv st"
  shows "dispatcher_inv (step e st)"
proof (cases e)
  case (Connect u)
  have "dispatcher_inv (connect u st) = dispatcher_inv st"
    by (rule inv_fields) (simp_all add: connect_fields)
  then show ?thesis
    using assms Connect by simp
next
  case Disconnect
  have "dispatcher_inv (disconnect st) = dispatcher_inv st"
    by (rule inv_fields) (simp_all add: disconnect_fields)
  then show ?thesis
    using assms Disconnect by simp
next
  case (CreateSession dir mode now)
  then show ?thesis
    using inv_awaitCall[OF assms] by (simp add: createSession_def)
next
  case (SendMessage tid body model now)
  then show ?thesis
    using inv_awaitCall[of "st\<lparr>sessions := ss\<rparr>" for ss] assms by (simp add: sendMessage_def)
next
  case (InterruptTurn tid now)
  then show ?thesis
    using inv_awaitCall[OF assms] by (simp add: interruptTurn_def)
next
  case (ApprovePermission tid mode now)
  then show ?thesis
    using inv_awaitCall[OF assms] by (simp add: approvePermission_def)
next
  case (ChangePermissionMode tid mode now)
  then show ?thesis
    using inv_awaitCall[OF assms] by (simp add: changePermissionMode_def)
next
  case (SetLastBlocked tid body)
  then show ?thesis
    using assms by (simp add: setLastBlocked_def)
next
  case (DismissPermissionDenial tid)
  then show ?thesis
    using assms by (simp add: dismissPermissionDenial_def)
next
  case (DeleteSession tid now)
  then show ?thesis
    using inv_deleteSession[OF assms] by simp
next
  case (SocketOpened h now)
  then show ?thesis
    using assms inv_onopen[of "setReadyState h OPEN st" h now] by simp
next
  case (SocketMessage h f)
  then show ?thesis
    using assms inv_onmessage[OF assms] by simp
next
  case (SocketClosed h code reason)
  then show ?thesis
    using assms inv_onclose[of "setReadyState h CLOSED st" h code reason] by simp
next
  case (TimerFired i now)
  then show ?thesis
    using inv_fireTimer[OF assms] by simp
next
  case Render
  have "dispatcher_inv (st\<lparr>sessionRef := sessions st\<rparr>) = dispatcher_inv st"
    by (rule inv_fields) simp_all
  then show ?thesis
    using assms Render by simp
qed

lemma inv_initial: "dispatcher_inv initial"
  by (simp add: dispatcher_inv_def initial_def)

lemma inv_run:
  assumes "dispatcher_inv st"
  shows "dispatcher_inv (run es st)"
  using assms unfolding run_def
  by (induction es arbitrary: st) (simp_all add: inv_step)

section \<open>Correlation ids\<close>

lemma strictly_sorted_distinct: "sorted_wrt (<) (xs :: nat list) \<Longrightarrow> distinct xs"
  by (induction xs) auto

text \<open>
  Claim C5: in every state the hook reaches from its initial state, the correlation ids
  that \<^verbatim>\<open>nextId\<close> has handed out (to calls and to handshakes alike) increase strictly, so
  they are pairwise distinct, and the next id is above all of them: no id is handed out
  twice. And a response whose id is the key of no pending record (a number that matches
  none, or a value that is not such a number) leaves the whole state unchanged: pending
  table, timers and session store.
\<close>

theorem correlation_ids_unique:
  assumes "st = run es initial"
    and "idv = OtherId \<or> (\<exists>i. idv = NumId i \<and> map_of (pendingRef s) i = None)"
  shows "sorted_wrt (<) (allocated st) \<and> distinct (allocated st) \<and>
         (\<forall>i\<in>set (allocated st). i < fst (nextId st)) \<and>
         allocated (snd (nextId st)) = allocated st @ [fst (nextId st)] \<and>
         step (SocketMessage h (Response idv r)) s = s"
proof -
  have inv: "dispatcher_inv st"
    unfolding assms(1) by (rule inv_run[OF inv_initial])
  have 1: "sorted_wrt (<) (allocated st)"
    using inv_D(7)[OF inv] .
  have 2: "\<forall>i\<in>set (allocated st). i < fst (nextId st)"
    using inv_D(8)[OF inv] by (simp add: nextId_def)
  have 3: "step (SocketMessage h (Response idv r)) s = s"
    using assms(2) by (auto simp: onmessage_def)
  show ?thesis
    using 1 2 3 strictly_sorted_distinct[OF 1] by (simp add: nextId_def)
qed

theorem correlation_ids_unique_witness:
  "allocated (run [Connect ''ws://a'', SocketOpened 0 5, InterruptTurn ''t1'' 6,
                   SocketClosed 0 1006 [], InterruptTurn ''t1'' 7] initial) = [1, 2, 3] \<and>
   fst (nextId (run [Connect ''ws://a'', SocketOpened 0 5, InterruptTurn ''t1'' 6,
                     SocketClosed 0 1006 [], InterruptTurn ''t1'' 7] initial)) = 4 \<and>
   map_of (pendingRef (run [Connect ''ws://a'', SocketOpened 0 5, InterruptTurn ''t1'' 6] initial)) 7
     = None \<and>
   step (SocketMessage 0 (Response (NumId 7) (ResultReply NullResult)))
     (run [Connect ''ws://a'', SocketOpened 0 5, InterruptTurn ''t1'' 6] initial)
   = run [Connect ''ws://a'', SocketOpened 0 5, InterruptTurn ''t1'' 6] initial"
proof -
  let ?es = "[Connect ''ws://a'', SocketOpened 0 5, InterruptTurn ''t1'' 6,
              SocketClosed 0 1006 [], InterruptTurn ''t1'' 7]"
  let ?s = "run [Connect ''ws://a'', SocketOpened 0 5, InterruptTurn ''t1'' 6] initial"
  have a: "allocated (run ?es initial) = [1, 2, 3]" "fst (nextId (run ?es initial)) = 4"
    by (simp_all add: hook_defs)
  have n: "map_of (pendingRef ?s) 7 = None"
    by (simp add: hook_defs)
  then have h: "NumId 7 = OtherId \<or> (\<exists>i. NumId 7 = NumId i \<and> map_of (pendingRef ?s) i = None)"
    by simp
  show ?thesis
    using correlation_ids_unique[OF refl h, of ?es 0 "ResultReply NullResult"] a n
    by simp
qed

section \<open>Reconnecting\<close>

text \<open>
  Claim C3, as stated: when \<^verbatim>\<open>connect\<close> replaces a connection, every pending call of the
  old connection is rejected before the new connection is considered, and none remains
  outstanding once the new connection is in use. Below, a call is made on the first
  connection, \<^verbatim>\<open>connect\<close> is invoked with another address, the old socket closes, and
  the new connection opens and completes its handshake: the call of the old connection is
  still pending and was never settled.
\<close>

theorem reconnect_rejects_pending_counterexample:
  "pendingRef (run [Connect ''ws://a'', SocketOpened 0 5,
                    SocketMessage 0 (Response (NumId 1) (ResultReply NullResult)),
                    InterruptTurn ''t1'' 6, Connect ''ws://b'', SocketClosed 0 1000 [],
                    SocketOpened 1 7,
                    SocketMessage 1 (Response (NumId 3) (ResultReply NullResult))]
                 initial) =
     [(2, \<lparr>method_name = ''turn/interrupt'', completion = CallPromise AwaitInterruptTurn,
            startedAt = 6\<rparr>)] \<and>
   settled (run [Connect ''ws://a'', SocketOpened 0 5,
                 SocketMessage 0 (Response (NumId 1) (ResultReply NullResult)),
                 InterruptTurn ''t1'' 6, Connect ''ws://b'', SocketClosed 0 1000 [],
                 SocketOpened 1 7,
                 SocketMessage 1 (Response (NumId 3) (ResultReply NullResult))]
              initial) = [] \<and>
   wsRef (run [Connect ''ws://a'', SocketOpened 0 5,
               SocketMessage 0 (Response (NumId 1) (ResultReply NullResult)),
               InterruptTurn ''t1'' 6, Connect ''ws://b'', SocketClosed 0 1000 [],
               SocketOpened 1 7,
               SocketMessage 1 (Response (NumId 3) (ResultReply NullResult))]
            initial) = Some 1 \<and>
   status (run [Connect ''ws://a'', SocketOpened 0 5,
                SocketMessage 0 (Response (NumId 1) (ResultReply NullResult)),
                InterruptTurn ''t1'' 6, Connect ''ws://b'', SocketClosed 0 1000 [],
                SocketOpened 1 7,
                SocketMessage 1 (Response (NumId 3) (ResultReply NullResult))]
             initial) = connected"
  by (simp add: hook_defs)

text \<open>
  Claim C3, amended. When \<^verbatim>\<open>connect\<close> is invoked while a previous connection exists (to
  another address, or closing or closed), it closes the previous socket and makes a new
  one the current socket, and leaves the pending table, the timers and the settled
  promises as they are. The close event of the replaced socket, and of every socket that
  is not the current one, rejects no pending record: pending table, timers and settled
  promises are the same after it, and a message on such a socket changes nothing. So the
  records registered before stay pending, with their timeouts armed, while the new
  connection is in use. When the socket that is current at that time closes, every
  pending record is rejected: the promise of each pending call is rejected with the
  connection-closed error, in the order of the table (a pending handshake record has no
  promise of a caller, and is removed like the others), the timeout of each record is
  cleared, and the table is emptied.
\<close>

theorem reconnect_keeps_pending:
  assumes "current st = Some (h, ws)"
    and "\<not> (ws_url ws = u \<and> readyState ws \<in> {CONNECTING, OPEN})"
  shows "pendingRef (connect u st) = pendingRef st \<and>
         timers (connect u st) = timers st \<and>
         settled (connect u st) = settled st \<and>
         wsRef (connect u st) = Some (length (sockets st)) \<and>
         wsRef (connect u st) \<noteq> Some h \<and>
         readyState (sockets (connect u st) ! h) \<in> {CLOSING, CLOSED} \<and>
         sockets (connect u st) ! length (sockets st) = \<lparr>ws_url = u, readyState = CONNECTING\<rparr> \<and>
         pendingRef (step (SocketClosed h code reason) (connect u st)) = pendingRef st \<and>
         settled (step (SocketClosed h code reason) (connect u st)) = settled st \<and>
         (wsRef s \<noteq> Some h \<longrightarrow>
            pendingRef (step (SocketClosed h code reason) s) = pendingRef s \<and>
            timers (step (SocketClosed h code reason) s) = timers s \<and>
            settled (step (SocketClosed h code reason) s) = settled s \<and>
            step (SocketMessage h f) s = s) \<and>
         (wsRef s = Some h' \<and> h' < length (sockets s) \<and> readyState (sockets s ! h') \<noteq> CLOSED \<longrightarrow>
            pendingRef (step (SocketClosed h' code reason) s) = [] \<and>
            settled (step (SocketClosed h' code reason) s) =
              settled s @ map (\<lambda>x. (fst x, Rejected (WebSocketClosed code)))
                            (filter (\<lambda>x. completion (snd x) \<noteq> Handshake) (pendingRef s)) \<and>
            (\<forall>x\<in>set (pendingRef s).
               map_of (timers (step (SocketClosed h' code reason) s)) (fst x) = None))"
proof -
  have h: "wsRef st = Some h" "h < length (sockets st)" "ws = sockets st ! h"
    using assms(1) by (auto simp: current_def split: option.splits if_splits)
  have c: "connect u st =
             (closeSocket h st)\<lparr>status := connecting, lastError := None, url := u,
                sockets := sockets (closeSocket h st) @ [\<lparr>ws_url = u, readyState = CONNECTING\<rparr>],
                wsRef := Some (length (sockets (closeSocket h st)))\<rparr>"
    using assms by (auto simp: connect_def Let_def)
  have len: "length (sockets (closeSocket h st)) = length (sockets st)"
    by (simp add: closeSocket_def setReadyState_def)
  have rs: "readyState (sockets (closeSocket h st) ! h) \<in> {CLOSING, CLOSED}"
    using h(2) by (cases "readyState (sockets st ! h)")
      (simp_all add: closeSocket_def setReadyState_def)
  have 1: "pendingRef (connect u st) = pendingRef st \<and>
           timers (connect u st) = timers st \<and> settled (connect u st) = settled st"
    by (simp add: connect_fields)
  have 2: "wsRef (connect u st) = Some (length (sockets st))"
    "wsRef (connect u st) \<noteq> Some h"
    using h(2) by (simp_all add: c len)
  have 3: "readyState (sockets (connect u st) ! h) \<in> {CLOSING, CLOSED}"
    using rs h(2) by (simp add: c len nth_append)
  have 4: "sockets (connect u st) ! length (sockets st) = \<lparr>ws_url = u, readyState = CONNECTING\<rparr>"
    by (simp add: c len nth_append)
  have 5: "pendingRef (step (SocketClosed h code reason) s) = pendingRef s \<and>
           timers (step (SocketClosed h code reason) s) = timers s \<and>
           settled (step (SocketClosed h code reason) s) = settled s \<and>
           step (SocketMessage h f) s = s" if "wsRef s \<noteq> Some h"
    using that by (simp add: onclose_def onmessage_def Let_def)
  have 6: "pendingRef (step (SocketClosed h' code reason) s) = [] \<and>
           settled (step (SocketClosed h' code reason) s) =
             settled s @ map (\<lambda>x. (fst x, Rejected (WebSocketClosed code)))
                           (filter (\<lambda>x. completion (snd x) \<noteq> Handshake) (pendingRef s)) \<and>
           (\<forall>x\<in>set (pendingRef s).
              map_of (timers (step (SocketClosed h' code reason) s)) (fst x) = None)"
    if cur: "wsRef s = Some h' \<and> h' < length (sockets s) \<and> readyState (sockets s ! h') \<noteq> CLOSED"
  proof -
    let ?s = "(setReadyState h' CLOSED s)\<lparr>wsRef := None\<rparr>"
    have eq: "step (SocketClosed h' code reason) s = onclose h' code reason (setReadyState h' CLOSED s)"
      using cur by simp
    have a: "pendingRef (step (SocketClosed h' code reason) s) = []"
      "settled (step (SocketClosed h' code reason) s) =
         settled s @ map (\<lambda>x. (fst x, Rejected (WebSocketClosed code)))
                       (filter (\<lambda>x. completion (snd x) \<noteq> Handshake) (pendingRef s))"
      "timers (step (SocketClosed h' code reason) s) =
         timers (rejectAllPending (WebSocketClosed code) ?s)"
      unfolding eq using cur by (simp_all add: onclose_fields rejectAllPending_fields)
    have b: "map_of (timers (step (SocketClosed h' code reason) s)) (fst x) = None"
      if "x \<in> set (pendingRef s)" for x
      unfolding a(3) using that by (intro rejectAllPending_timers) simp
    show ?thesis
      using a(1,2) b by blast
  qed
  have 7: "pendingRef (step (SocketClosed h code reason) (connect u st)) = pendingRef st \<and>
           settled (step (SocketClosed h code reason) (connect u st)) = settled st"
    using 1 2(2) by (simp add: onclose_fields)
  show ?thesis
    using 1 2 3 4 5 6 7 by simp
qed

theorem reconnect_keeps_pending_witness:
  "current (run [Connect ''ws://a'', SocketOpened 0 5,
                 SocketMessage 0 (Response (NumId 1) (ResultReply NullResult)),
                 InterruptTurn ''t1'' 6] initial) =
     Some (0, \<lparr>ws_url = ''ws://a'', readyState = OPEN\<rparr>) \<and>
   pendingRef (connect ''ws://b''
     (run [Connect ''ws://a'', SocketOpened 0 5,
           SocketMessage 0 (Response (NumId 1) (ResultReply NullResult)),
           InterruptTurn ''t1'' 6] initial)) =
     [(2, \<lparr>method_name = ''turn/interrupt'', completion = CallPromise AwaitInterruptTurn,
            startedAt = 6\<rparr>)] \<and>
   wsRef (connect ''ws://b''
     (run [Connect ''ws://a'', SocketOpened 0 5,
           SocketMessage 0 (Response (NumId 1) (ResultReply NullResult)),
           InterruptTurn ''t1'' 6] initial)) = Some 1 \<and>
   pendingRef (step (SocketClosed 0 1006 [])
     (run [Connect ''ws://a'', SocketOpened 0 5,
           SocketMessage 0 (Response (NumId 1) (ResultReply NullResult)),
           InterruptTurn ''t1'' 6] initial)) = [] \<and>
   settled (step (SocketClosed 0 1006 [])
     (run [Connect ''ws://a'', SocketOpened 0 5,
           SocketMessage 0 (Response (NumId 1) (ResultReply NullResult)),
           InterruptTurn ''t1'' 6] initial)) = [(2, Rejected (WebSocketClosed 1006))]"
proof -
  let ?st = "run [Connect ''ws://a'', SocketOpened 0 5,
                  SocketMessage 0 (Response (NumId 1) (ResultReply NullResult)),
                  InterruptTurn ''t1'' 6] initial"
  have st: "current ?st = Some (0, \<lparr>ws_url = ''ws://a'', readyState = OPEN\<rparr>)"
    "pendingRef ?st =
       [(2, \<lparr>method_name = ''turn/interrupt'', completion = CallPromise AwaitInterruptTurn,
              startedAt = 6\<rparr>)]"
    "length (sockets ?st) = 1"
    "wsRef ?st = Some 0" "sockets ?st = [\<lparr>ws_url = ''ws://a'', readyState = OPEN\<rparr>]"
    "settled ?st = []"
    by (simp_all add: hook_defs)
  have d: "\<not> (ws_url \<lparr>ws_url = ''ws://a'', readyState = OPEN\<rparr> = ''ws://b'' \<and>
               readyState \<lparr>ws_url = ''ws://a'', readyState = OPEN\<rparr> \<in> {CONNECTING, OPEN})"
    by simp
  note w = reconnect_keeps_pending
      [where s = ?st and h' = 0 and code = 1006 and reason = "[]", OF st(1) d]
  have replaced: "pendingRef (connect ''ws://b'' ?st) = pendingRef ?st"
    "wsRef (connect ''ws://b'' ?st) = Some (length (sockets ?st))"
    using w by blast+
  have closed: "pendingRef (step (SocketClosed 0 1006 []) ?st) = []"
    "settled (step (SocketClosed 0 1006 []) ?st) =
       settled ?st @ map (\<lambda>x. (fst x, Rejected (WebSocketClosed 1006)))
                       (filter (\<lambda>x. completion (snd x) \<noteq> Handshake) (pendingRef ?st))"
    using w st(4,5) by simp_all
  show ?thesis
    using replaced closed st by simp
qed

section \<open>How one event acts on one pending call\<close>

lemma settlementsOf_append:
  "settled st' = settled st @ [(j, out)] \<Longrightarrow>
   settlementsOf i st' = settlementsOf i st @ (if j = i then [out] else [])"
  by (simp add: settlementsOf_def)

lemma settlementsOf_same: "settled st' = settled st \<Longrightarrow> settlementsOf i st' = settlementsOf i st"
  by (simp add: settlementsOf_def)

lemma pending_unsettled:
  assumes "dispatcher_inv st" and "(i, p) \<in> set (pendingRef st)"
  shows "settlementsOf i st = []"
proof -
  have "\<forall>x\<in>set (settled st). fst x \<noteq> i"
  proof
    fix x assume "x \<in> set (settled st)"
    then have "(fst x, snd x) \<in> set (settled st)"
      by simp
    then show "fst x \<noteq> i"
      using inv_D(5)[OF assms(1), of i p "snd x"] assms(2) by auto
  qed
  then show ?thesis
    by (simp add: settlementsOf_def filter_empty_conv)
qed

lemma pending_lookup:
  assumes "dispatcher_inv st" and "(i, p) \<in> set (pendingRef st)"
  shows "map_of (pendingRef st) i = Some p"
  using inv_D(1)[OF assms(1)] assms(2) by (rule map_of_is_SomeI)

lemma kept_awaitCall:
  assumes "dispatcher_inv st" and "(i, p) \<in> set (pendingRef st)"
  shows "settlementsOf i (awaitCall m k now st) = settlementsOf i st \<and>
         (i, p) \<in> set (pendingRef (awaitCall m k now st))"
proof (cases "transportOpen st")
  case True
  have fresh: "msgIdCounter st \<notin> fst ` set (pendingRef st)"
    using inv_D(3)[OF assms(1)] by force
  show ?thesis
    using assms(2) by (simp add: awaitCall_open[OF True] update_fresh[OF fresh] settlementsOf_def)
next
  case False
  have "i \<noteq> msgIdCounter st"
    using inv_D(3)[OF assms] by simp
  then show ?thesis
    using assms(2) by (simp add: awaitCall_closed[OF False] settlementsOf_def)
qed

lemma kept_onopen:
  assumes "dispatcher_inv st" and "(i, p) \<in> set (pendingRef st)"
  shows "settlementsOf i (onopen h now st) = settlementsOf i st \<and>
         (i, p) \<in> set (pendingRef (onopen h now st))"
proof -
  have fresh: "msgIdCounter st \<notin> fst ` set (pendingRef st)"
    using inv_D(3)[OF assms(1)] by force
  show ?thesis
    using assms(2)
    by (simp add: onopen_def nextId_def update_fresh[OF fresh] settlementsOf_def)
qed

lemma kept_fireTimer_other:
  assumes "(i, p) \<in> set (pendingRef st)" and "j \<noteq> i"
  shows "settlementsOf i (fireTimer j now st) = settlementsOf i st \<and>
         (i, p) \<in> set (pendingRef (fireTimer j now st))"
proof (cases "map_of (timers st) j")
  case None
  then show ?thesis
    using assms by (simp add: fireTimer_def)
next
  case (Some t)
  then show ?thesis
    using assms
    by (cases "callback t")
       (simp_all add: fireTimer_def clearTimeout_def settlePromise_def Let_def
          settlementsOf_def delete_member)
qed

lemma done_fireTimer:
  assumes "dispatcher_inv st" and "(i, p) \<in> set (pendingRef st)"
    and "completion p = CallPromise k"
  shows "settlementsOf i (fireTimer i now st) =
           [Rejected (RequestTimedOut (method_name p) (int now - int (startedAt p)))] \<and>
         i \<notin> fst ` set (pendingRef (fireTimer i now st))"
proof -
  have t: "map_of (timers st) i =
             Some \<lparr>callback = CallTimeout (method_name p) (startedAt p) k,
                   duration = CALL_TIMEOUT_MS\<rparr>"
    using inv_D(6)[OF assms(1,2)] assms(3) by (simp add: timerOf_def)
  have l: "map_of (pendingRef st) i = Some p"
    by (rule pending_lookup[OF assms(1,2)])
  have u: "settlementsOf i st = []"
    by (rule pending_unsettled[OF assms(1,2)])
  have eq: "fireTimer i now st =
          settlePromise i k (Rejected (RequestTimedOut (method_name p) (int now - int (startedAt p))))
            ((clearTimeout i st)\<lparr>pendingRef := AList.delete i (pendingRef st)\<rparr>)"
    using t l by (simp add: fireTimer_def clearTimeout_def Let_def)
  show ?thesis
    using u unfolding eq
    by (simp add: settlePromise_def clearTimeout_def settlementsOf_def delete_notin_dom)
qed

lemma kept_onmessage_other:
  assumes "(i, p) \<in> set (pendingRef st)"
    and "\<forall>r. f \<noteq> Response (NumId i) r"
  shows "settlementsOf i (onmessage h f st) = settlementsOf i st \<and>
         (i, p) \<in> set (pendingRef (onmessage h f st))"
proof (cases "wsRef st = Some h")
  case False
  then show ?thesis
    using assms by (simp add: onmessage_def)
next
  case True
  show ?thesis
  proof (cases f)
    case (Response idv r)
    show ?thesis
    proof (cases idv)
      case OtherId
      then show ?thesis
        using assms True Response by (simp add: onmessage_def)
    next
      case (NumId j)
      then have ne: "j \<noteq> i"
        using assms(2) Response by auto
      show ?thesis
      proof (cases "map_of (pendingRef st) j")
        case None
        then show ?thesis
          using assms True Response NumId by (simp add: onmessage_def)
      next
        case (Some q)
        show ?thesis
          using assms(1) True Response NumId Some ne
          by (cases r; cases "completion q")
             (simp_all add: onmessage_def entryReject_fields entryResolve_fields
                settlementsOf_def delete_member)
      qed
    qed
  qed (use assms True in \<open>simp_all add: onmessage_def settlementsOf_def\<close>)
qed

lemma done_onmessage:
  assumes "dispatcher_inv st" and "(i, p) \<in> set (pendingRef st)"
    and "completion p = CallPromise k" and "wsRef st = Some h"
  shows "settlementsOf i (onmessage h (Response (NumId i) r) st) =
           [case r of ErrorReply e \<Rightarrow> Rejected (ServerError e) | ResultReply v \<Rightarrow> Resolved v] \<and>
         i \<notin> fst ` set (pendingRef (onmessage h (Response (NumId i) r) st))"
proof -
  have l: "map_of (pendingRef st) i = Some p"
    by (rule pending_lookup[OF assms(1,2)])
  have u: "settlementsOf i st = []"
    by (rule pending_unsettled[OF assms(1,2)])
  show ?thesis
    using l u assms(3,4)
    by (cases r)
       (simp_all add: onmessage_def entryReject_fields entryResolve_fields
          settlementsOf_def delete_notin_dom)
qed

lemma done_rejectAllPending:
  assumes "dispatcher_inv st" and "(i, p) \<in> set (pendingRef st)"
    and "completion p = CallPromise k"
  shows "settlementsOf i (rejectAllPending r st) = [Rejected r]"
proof -
  have u: "settlementsOf i st = []"
    by (rule pending_unsettled[OF assms(1,2)])
  let ?calls = "filter (\<lambda>x. completion (snd x) \<noteq> Handshake) (pendingRef st)"
  have dist: "distinct (map fst ?calls)"
    using inv_D(1)[OF assms(1)] by (simp add: distinct_map_filter)
  have mem: "(i, p) \<in> set ?calls"
    using assms(2,3) by simp
  have one: "filter (\<lambda>x. fst x = i) xs = [(i, p)]"
    if "distinct (map fst xs)" "(i, p) \<in> set xs" for xs :: "(nat \<times> pending_call) list"
    using that
  proof (induction xs)
    case Nil
    then show ?case by simp
  next
    case (Cons x xs)
    show ?case
    proof (cases "x = (i, p)")
      case True
      have "i \<notin> set (map fst xs)"
        using Cons.prems(1) True by simp
      then have "\<forall>y\<in>set xs. fst y \<noteq> i"
        by auto
      then have "filter (\<lambda>x. fst x = i) xs = []"
        by (simp add: filter_empty_conv)
      then show ?thesis
        using True by simp
    next
      case False
      then have "(i, p) \<in> set xs"
        using Cons.prems(2) by simp
      then have "i \<in> set (map fst xs)"
        using image_eqI[of i fst "(i, p)" "set xs"] by simp
      then have "fst x \<noteq> i"
        using Cons.prems(1) by auto
      then show ?thesis
        using Cons \<open>(i, p) \<in> set xs\<close> by simp
    qed
  qed
  have "map snd (filter (\<lambda>x. fst x = i) (map (\<lambda>x. (fst x, Rejected r)) ?calls)) =
          map (\<lambda>x. Rejected r) (filter (\<lambda>x. fst x = i) ?calls)"
    by (simp add: filter_map comp_def)
  also have "\<dots> = [Rejected r]"
    using one[OF dist mem] by simp
  finally show ?thesis
    using u by (simp add: settlementsOf_def rejectAllPending_fields)
qed

lemma step_pending_call:
  assumes inv: "dispatcher_inv st" and mem: "(i, p) \<in> set (pendingRef st)"
    and prom: "completion p = CallPromise k"
  shows "case settlingOutcome st i p e of
           Some out \<Rightarrow>
             settlementsOf i (step e st) = [out] \<and> i \<notin> fst ` set (pendingRef (step e st))
         | None \<Rightarrow>
             settlementsOf i (step e st) = [] \<and> (i, p) \<in> set (pendingRef (step e st))"
proof -
  note u = pending_unsettled[OF inv mem]
  have same: "settlementsOf i st' = [] \<and> (i, p) \<in> set (pendingRef st')"
    if "pendingRef st' = pendingRef st" "settled st' = settled st" for st'
    using that u mem by (simp add: settlementsOf_def)
  have await: "settlementsOf i (awaitCall m k' now st') = [] \<and>
               (i, p) \<in> set (pendingRef (awaitCall m k' now st'))"
    if "st' = st\<lparr>sessions := ss\<rparr>" for m k' now st' ss
  proof -
    have "dispatcher_inv st'" "(i, p) \<in> set (pendingRef st')" "settlementsOf i st' = []"
      using inv mem u that by (simp_all add: settlementsOf_def)
    then show ?thesis
      using kept_awaitCall[of st' i p m k' now] by simp
  qed
  have st_id: "st = st\<lparr>sessions := sessions st\<rparr>"
    by simp
  show ?thesis
  proof (cases e)
    case (Connect url)
    then show ?thesis
      using same[of "connect url st"] by (simp add: connect_fields)
  next
    case Disconnect
    then show ?thesis
      using same[of "disconnect st"] by (simp add: disconnect_fields)
  next
    case (CreateSession dir mode now)
    then show ?thesis
      using await[OF st_id] by (simp add: createSession_def)
  next
    case (SendMessage tid body model now)
    then show ?thesis
      using await[OF refl] by (simp add: sendMessage_def)
  next
    case (InterruptTurn tid now)
    then show ?thesis
      using await[OF st_id] by (simp add: interruptTurn_def)
  next
    case (ApprovePermission tid mode now)
    then show ?thesis
      using await[OF st_id] by (simp add: approvePermission_def)
  next
    case (ChangePermissionMode tid mode now)
    then show ?thesis
      using await[OF st_id] by (simp add: changePermissionMode_def)
  next
    case (SetLastBlocked tid body)
    then show ?thesis
      using same[of "setLastBlocked tid body st"] by (simp add: setLastBlocked_def)
  next
    case (DismissPermissionDenial tid)
    then show ?thesis
      using same[of "dismissPermissionDenial tid st"] by (simp add: dismissPermissionDenial_def)
  next
    case (DeleteSession tid now)
    have "settlementsOf i (deleteSession tid now st) = [] \<and>
          (i, p) \<in> set (pendingRef (deleteSession tid now st))"
      using await[OF st_id, of "''turn/interrupt''" "AwaitDeleteSession tid" now]
        same[of "st\<lparr>sessions := filter (\<lambda>s. thread_id s \<noteq> tid) (sessions st)\<rparr>"]
      by (simp add: deleteSession_def split: option.splits)
    then show ?thesis
      using DeleteSession by simp
  next
    case (SocketOpened h now)
    have "dispatcher_inv (setReadyState h OPEN st)"
      "(i, p) \<in> set (pendingRef (setReadyState h OPEN st))"
      "settlementsOf i (setReadyState h OPEN st) = []"
      using inv mem u by (simp_all add: settlementsOf_def)
    then have "settlementsOf i (onopen h now (setReadyState h OPEN st)) = [] \<and>
               (i, p) \<in> set (pendingRef (onopen h now (setReadyState h OPEN st)))"
      using kept_onopen[of "setReadyState h OPEN st" i p h now] by simp
    then show ?thesis
      using SocketOpened u mem by simp
  next
    case (SocketMessage h f)
    show ?thesis
    proof (cases "\<exists>r. f = Response (NumId i) r")
      case False
      then have none: "settlingOutcome st i p e = None"
        using SocketMessage
        by (cases f; simp) (rename_tac idv r, case_tac idv; simp)
      have "settlementsOf i (onmessage h f st) = [] \<and> (i, p) \<in> set (pendingRef (onmessage h f st))"
        using kept_onmessage_other[OF mem, of f h] False u by simp
      then show ?thesis
        using SocketMessage none u mem by simp
    next
      case True
      then obtain r where r: "f = Response (NumId i) r"
        by blast
      show ?thesis
      proof (cases "wsRef st = Some h \<and> h < length (sockets st) \<and>
                    readyState (sockets st ! h) \<in> {OPEN, CLOSING}")
        case True
        then show ?thesis
          using SocketMessage r done_onmessage[OF inv mem prom, of h r] by simp
      next
        case False
        have "step e st = st"
          using False SocketMessage by (auto simp: onmessage_def)
        then show ?thesis
          using False SocketMessage r u mem by auto
      qed
    qed
  next
    case (SocketClosed h code reason)
    show ?thesis
    proof (cases "wsRef st = Some h \<and> h < length (sockets st) \<and>
                  readyState (sockets st ! h) \<noteq> CLOSED")
      case True
      let ?st = "(setReadyState h CLOSED st)\<lparr>wsRef := None\<rparr>"
      have "dispatcher_inv ?st = dispatcher_inv st"
        by (rule inv_fields) simp_all
      then have "settlementsOf i (rejectAllPending (WebSocketClosed code) ?st) =
                   [Rejected (WebSocketClosed code)]"
        using done_rejectAllPending[of ?st i p k "WebSocketClosed code"] inv mem prom by simp
      then have "settlementsOf i (step e st) = [Rejected (WebSocketClosed code)] \<and>
                 i \<notin> fst ` set (pendingRef (step e st))"
        using True SocketClosed
        by (simp add: onclose_fields settlementsOf_def rejectAllPending_fields)
      then show ?thesis
        using True SocketClosed by simp
    next
      case False
      have "settlementsOf i (step e st) = [] \<and> (i, p) \<in> set (pendingRef (step e st))"
        using False SocketClosed u mem
        by (auto simp: onclose_fields settlementsOf_def)
      then show ?thesis
        using False SocketClosed by auto
    qed
  next
    case (TimerFired j now)
    show ?thesis
    proof (cases "j = i")
      case True
      then show ?thesis
        using TimerFired done_fireTimer[OF inv mem prom, of now] by simp
    next
      case False
      then show ?thesis
        using TimerFired kept_fireTimer_other[OF mem False, of now] u by simp
    qed
  next
    case Render
    then show ?thesis
      using same[of "st\<lparr>sessionRef := sessions st\<rparr>"] by simp
  qed
qed

lemma at_most_one_settlement:
  assumes "dispatcher_inv st"
  shows "length (settlementsOf j st) \<le> 1"
proof -
  have "length (filter (\<lambda>x. fst x = j) xs) \<le> 1" if "distinct (map fst xs)"
    for xs :: "(nat \<times> outcome) list"
    using that
  proof (induction xs)
    case Nil
    then show ?case by simp
  next
    case (Cons x xs)
    show ?case
    proof (cases "fst x = j")
      case True
      then have "j \<notin> set (map fst xs)"
        using Cons.prems by auto
      then have "\<forall>y\<in>set xs. fst y \<noteq> j"
        by auto
      then have "filter (\<lambda>x. fst x = j) xs = []"
        by (simp add: filter_empty_conv)
      then show ?thesis
        using True by simp
    next
      case False
      then show ?thesis
        using Cons by simp
    qed
  qed
  then show ?thesis
    using inv_D(2)[OF assms] by (simp add: settlementsOf_def)
qed

lemma fresh_unsettled:
  assumes "dispatcher_inv st"
  shows "settlementsOf (msgIdCounter st) st = []"
proof -
  have "\<forall>x\<in>set (settled st). fst x \<noteq> msgIdCounter st"
  proof
    fix x assume "x \<in> set (settled st)"
    then have "(fst x, snd x) \<in> set (settled st)"
      by simp
    then show "fst x \<noteq> msgIdCounter st"
      using inv_D(4)[OF assms, of "fst x" "snd x"] by simp
  qed
  then show ?thesis
    by (simp add: settlementsOf_def filter_empty_conv)
qed

lemma call_settles_or_registers:
  assumes "dispatcher_inv st"
  shows "case call m k now st of
           (RejectedNow err, st') \<Rightarrow>
             settlementsOf (msgIdCounter st) st' = [Rejected err] \<and>
             pendingRef st' = pendingRef st
         | (Registered c, st') \<Rightarrow>
             c = msgIdCounter st \<and> settlementsOf c st' = [] \<and>
             map_of (pendingRef st') c =
               Some \<lparr>method_name = m, completion = CallPromise k, startedAt = now\<rparr>"
proof (cases "transportOpen st")
  case True
  show ?thesis
    using fresh_unsettled[OF assms]
    by (simp add: call_open[OF True] settlementsOf_def update_conv')
next
  case False
  show ?thesis
    using fresh_unsettled[OF assms]
    by (simp add: call_closed[OF False] settlementsOf_def)
qed

section \<open>Exactly-once settlement\<close>

text \<open>
  Claim C1, as stated: each call settles according to whichever of matching response,
  timeout and connection loss occurs first in arrival order. This fails for a call whose
  socket \<^verbatim>\<open>connect\<close> has replaced. A call is sent on socket 0 (id 2, at clock 6); \<^verbatim>\<open>connect\<close>
  to another address replaces socket 0 by socket 1; then the response with id 2 arrives
  on socket 0, and socket 0 closes. Both the matching response and the loss of the
  connection of the call have now occurred, before the timeout; yet nothing is settled and
  both records are still pending, because \<^verbatim>\<open>ws.onmessage\<close> and \<^verbatim>\<open>ws.onclose\<close> of socket 0 are
  guarded by \<^verbatim>\<open>wsRef.current\<close> being that socket. The call is settled only by the timeout
  that fires afterwards (at clock 40), as a time-out after 34 ms: by the event that
  occurred last, not first.
\<close>

theorem stale_response_and_close_do_not_settle_counterexample:
  "settled (run [Connect ''ws://a'', SocketOpened 0 5, InterruptTurn ''t1'' 6,
                 Connect ''ws://b'',
                 SocketMessage 0 (Response (NumId 2) (ResultReply NullResult)),
                 SocketClosed 0 1000 []] initial) = [] \<and>
   pendingRef (run [Connect ''ws://a'', SocketOpened 0 5, InterruptTurn ''t1'' 6,
                    Connect ''ws://b'',
                    SocketMessage 0 (Response (NumId 2) (ResultReply NullResult)),
                    SocketClosed 0 1000 []] initial) =
     [(1, \<lparr>method_name = ''initialize'', completion = Handshake, startedAt = 5\<rparr>),
      (2, \<lparr>method_name = ''turn/interrupt'', completion = CallPromise AwaitInterruptTurn,
            startedAt = 6\<rparr>)] \<and>
   settled (run [Connect ''ws://a'', SocketOpened 0 5, InterruptTurn ''t1'' 6,
                 Connect ''ws://b'',
                 SocketMessage 0 (Response (NumId 2) (ResultReply NullResult)),
                 SocketClosed 0 1000 [],
                 TimerFired 2 40] initial) =
     [(2, Rejected (RequestTimedOut ''turn/interrupt'' 34))]"
  by (simp add: hook_defs)

text \<open>
  Claim C1, amended: for every sequence of call invocations and every interleaving of
  inbound responses, timeout firings and connection-closure events, each call settles
  exactly once, and it settles according to whichever of: a matching response delivered
  on the socket that is current at that time, its timeout, the closure of the socket that
  is current at that time, occurs first in arrival order; it is never settled a second
  time by a later event of the other kinds. A matching response or a close event of a
  socket that \<^verbatim>\<open>connect\<close> has replaced does not settle the call.

  In the model: take any state the hook reaches from its initial state by any sequence of
  events (operations of the presentation layer, transport events on any socket, timeouts,
  renders), and a call \<open>i\<close> that is pending there. Then:
  \<^item> its promise has not been settled yet, and its timeout is armed;
  \<^item> if the next event is one of the three that settle it (its timeout fires; a response
    with its id is delivered on the current socket; the current socket closes), the
    promise is settled with the outcome of that event, exactly once, and the record is
    removed;
  \<^item> every other event, a response or a close event of a replaced socket among them,
    leaves the call pending and unsettled, so that the first of the three kinds of event
    to arrive decides the outcome;
  \<^item> whatever events follow, no promise is ever settled twice;
  \<^item> and every \<^verbatim>\<open>call\<close> either rejects at once (settled once, nothing registered) or
    registers a pending record under a fresh id, unsettled.
\<close>

theorem call_settles_exactly_once:
  assumes "st = run es initial"
    and "(i, p) \<in> set (pendingRef st)"
    and "completion p = CallPromise k"
  shows "settlementsOf i st = [] \<and>
         map_of (timers st) i =
           Some \<lparr>callback = CallTimeout (method_name p) (startedAt p) k,
                 duration = CALL_TIMEOUT_MS\<rparr> \<and>
         (case settlingOutcome st i p e of
            Some out \<Rightarrow>
              settlementsOf i (step e st) = [out] \<and> i \<notin> fst ` set (pendingRef (step e st))
          | None \<Rightarrow>
              settlementsOf i (step e st) = [] \<and> (i, p) \<in> set (pendingRef (step e st))) \<and>
         distinct (map fst (settled (run later st))) \<and>
         length (settlementsOf j (run later st)) \<le> 1 \<and>
         (case call m k' now st of
            (RejectedNow err, st') \<Rightarrow>
              settlementsOf (msgIdCounter st) st' = [Rejected err] \<and>
              pendingRef st' = pendingRef st
          | (Registered c, st') \<Rightarrow>
              c = msgIdCounter st \<and> settlementsOf c st' = [] \<and>
              map_of (pendingRef st') c =
                Some \<lparr>method_name = m, completion = CallPromise k', startedAt = now\<rparr>)"
proof -
  have inv: "dispatcher_inv st"
    unfolding assms(1) by (rule inv_run[OF inv_initial])
  have inv': "dispatcher_inv (run later st)"
    by (rule inv_run[OF inv])
  have armed: "map_of (timers st) i =
      Some \<lparr>callback = CallTimeout (method_name p) (startedAt p) k,
            duration = CALL_TIMEOUT_MS\<rparr>"
    using inv_D(6)[OF inv assms(2)] assms(3) by (simp add: timerOf_def)
  show ?thesis
    using armed pending_unsettled[OF inv assms(2)] step_pending_call[OF inv assms(2,3), of e]
      inv_D(2)[OF inv'] at_most_one_settlement[OF inv', of j]
      call_settles_or_registers[OF inv, of m k' now]
    by simp
qed

theorem call_settles_exactly_once_witness:
  "pendingRef (run [Connect ''ws://a'', SocketOpened 0 5, InterruptTurn ''t1'' 6] initial) =
     [(1, \<lparr>method_name = ''initialize'', completion = Handshake, startedAt = 5\<rparr>),
      (2, \<lparr>method_name = ''turn/interrupt'', completion = CallPromise AwaitInterruptTurn,
            startedAt = 6\<rparr>)] \<and>
   settlementsOf 2 (step (TimerFired 2 40)
     (run [Connect ''ws://a'', SocketOpened 0 5, InterruptTurn ''t1'' 6] initial)) =
     [Rejected (RequestTimedOut ''turn/interrupt'' 34)] \<and>
   length (settlementsOf 2
     (run [TimerFired 2 40,
           SocketMessage 0 (Response (NumId 2) (ResultReply NullResult)),
           SocketClosed 0 1006 []]
        (run [Connect ''ws://a'', SocketOpened 0 5, InterruptTurn ''t1'' 6] initial))) \<le> 1"
proof -
  let ?st = "run [Connect ''ws://a'', SocketOpened 0 5, InterruptTurn ''t1'' 6] initial"
  let ?p = "\<lparr>method_name = ''turn/interrupt'', completion = CallPromise AwaitInterruptTurn,
             startedAt = 6\<rparr>"
  have P: "pendingRef ?st =
     [(1, \<lparr>method_name = ''initialize'', completion = Handshake, startedAt = 5\<rparr>), (2, ?p)]"
    by (simp add: hook_defs)
  then have mem: "(2, ?p) \<in> set (pendingRef ?st)"
    by simp
  have prom: "completion ?p = CallPromise AwaitInterruptTurn"
    by simp
  show ?thesis
    using call_settles_exactly_once[OF refl mem prom,
        where e = "TimerFired 2 40" and j = 2
          and later = "[TimerFired 2 40,
             SocketMessage 0 (Response (NumId 2) (ResultReply NullResult)),
             SocketClosed 0 1006 []]"] P
    by simp
qed

end
